theory Spec2Isabelle
  imports Complex_Main "HOL-Library.Word" "HOL-Library.Multiset"
begin

unbundle bit_operations_syntax

section \<open>Data model of the content script\<close>

text \<open>
  The post object built by \<open>extractPostData\<close>. JavaScript strings are modelled as
  \<open>string\<close>, one \<open>char\<close> per code unit, which covers the code units below
  256. The fields \<open>id\<close>, \<open>text\<close> and
  \<open>order\<close> carry the prefix \<open>post_\<close> because the bare names are taken in HOL.
  \<open>finalOrder\<close> is absent (\<open>None\<close>) until \<open>sortAndOrderPosts\<close> sets it.
\<close>

datatype jsnum = Num rat | NaN | PosInfinity

datatype media_type = Image | Video

record media_item =
  media_type :: media_type
  media_url :: string
  media_alt_or_poster :: string

record post_metrics =
  replies :: jsnum
  retweets :: jsnum
  likes :: jsnum
  views :: jsnum

record post_metadata =
  isRetweet :: bool
  isReply :: bool
  hasThread :: bool
  language :: string
  verified :: bool

record post =
  post_id :: string
  post_order :: nat
  post_text :: string
  author :: string
  timestamp :: string
  url :: string
  metrics :: post_metrics
  media :: "media_item list"
  metadata :: post_metadata
  scrapedAt :: string
  scrollPosition :: nat
  finalOrder :: "nat option"

section \<open>Hashing and the finalizer's deduplication\<close>

text \<open>
  \<open>simpleHash\<close>: \<open>hash = (hash << 5) - hash + char; hash = hash & hash\<close> for every
  code unit, starting from 0. \<open>&\<close> truncates to a signed 32-bit integer and \<open><<\<close>
  works on 32 bits, so the loop is arithmetic on \<open>32 word\<close>. The result is
  \<open>Math.abs(hash).toString()\<close>, the decimal digits of the absolute value of the
  signed reading.
\<close>

function toString :: "int \<Rightarrow> string" where
  "toString n =
     (if n < 10 then [''0123456789'' ! nat n]
      else toString (n div 10) @ [''0123456789'' ! nat (n mod 10)])"
  by pat_completeness auto
termination
  by (relation "measure nat") auto

declare toString.simps [simp del]

fun hashLoop :: "32 word \<Rightarrow> string \<Rightarrow> 32 word" where
  "hashLoop h [] = h"
| "hashLoop h (c # cs) = hashLoop (push_bit 5 h - h + of_char c) cs"

definition simpleHash :: "string \<Rightarrow> string" where
  "simpleHash str = toString \<bar>sint (hashLoop 0 str)\<bar>"

definition createContentHash :: "post \<Rightarrow> string" where
  "createContentHash p =
     simpleHash (post_text p @ ''|'' @ timestamp p @ ''|'' @ author p)"

text \<open>
  \<open>removeDuplicatePosts\<close> walks the posts in order with one \<open>Set\<close> called
  \<open>seen\<close>, which receives both the id and the content hash of every post it keeps.
  \<open>dedupFrom\<close> is the loop with the set as it stands.
\<close>

fun dedupFrom :: "string set \<Rightarrow> post list \<Rightarrow> post list" where
  "dedupFrom seen [] = []"
| "dedupFrom seen (p # ps) =
     (if post_id p \<notin> seen \<and> createContentHash p \<notin> seen
      then p # dedupFrom (insert (createContentHash p) (insert (post_id p) seen)) ps
      else dedupFrom seen ps)"

definition removeDuplicatePosts :: "post list \<Rightarrow> post list" where
  "removeDuplicatePosts posts = dedupFrom {} posts"

section \<open>Timestamps\<close>

text \<open>
  A JavaScript \<open>Date\<close> holds a time value in milliseconds or is an Invalid Date
  (time value NaN). Every \<open>Date\<close> object is truthy, the invalid one too; only
  \<open>null\<close> is falsy. \<open>timeClip\<close> is the range check of the \<open>Date\<close>
  constructor. The engine's \<open>Date.parse\<close> is a parameter \<open>parse\<close>, with
  \<open>None\<close> for NaN, and the clock reading of \<open>new Date()\<close> is the parameter
  \<open>now\<close>; one reading serves a whole finalization.
\<close>

datatype jsdate = Date int | InvalidDate

definition timeClip :: "int \<Rightarrow> jsdate" where
  "timeClip t = (if \<bar>t\<bar> \<le> 8640000000000000 then Date t else InvalidDate)"

definition newDate :: "(string \<Rightarrow> int option) \<Rightarrow> string \<Rightarrow> jsdate" where
  "newDate parse str = (case parse str of None \<Rightarrow> InvalidDate | Some t \<Rightarrow> timeClip t)"

definition isDigit :: "char \<Rightarrow> bool" where
  "isDigit c = (c \<in> set ''0123456789'')"

definition digitsValue :: "string \<Rightarrow> int" where
  "digitsValue ds = foldl (\<lambda>a c. 10 * a + (of_char c - 48)) 0 ds"

text \<open>
  \<open>timestamp.match(/(\d+)([smhd])/)\<close>: the leftmost run of digits that is directly
  followed by one of \<open>s\<close>, \<open>m\<close>, \<open>h\<close>, \<open>d\<close>; the first group is the whole run.
  \<open>matchFrom run cs\<close> scans \<open>cs\<close> with the digits collected so far.
\<close>

fun matchFrom :: "string \<Rightarrow> string \<Rightarrow> (string \<times> char) option" where
  "matchFrom run [] = None"
| "matchFrom run (c # cs) =
     (if isDigit c then matchFrom (run @ [c]) cs
      else if run \<noteq> [] \<and> c \<in> set ''smhd'' then Some (run, c)
      else matchFrom [] cs)"

definition relativeMatch :: "string \<Rightarrow> (string \<times> char) option" where
  "relativeMatch str = matchFrom [] str"

definition unitMillis :: "char \<Rightarrow> int" where
  "unitMillis u =
     (if u = CHR ''s'' then 1000
      else if u = CHR ''m'' then 60 * 1000
      else if u = CHR ''h'' then 60 * 60 * 1000
      else 24 * 60 * 60 * 1000)"

text \<open>
  \<open>parseTimestamp\<close> returns \<open>null\<close> (\<open>None\<close>) or a \<open>Date\<close> object. The
  subtraction \<open>now.getTime() - value * ...\<close> is exact here; in the engine the product
  is rounded once it passes \<open>2 ^ 53\<close>, where the difference is far outside the range
  of \<open>timeClip\<close> for any clock of this era, so both give Invalid Date. The
  \<open>catch\<close> branch is not a case of the model: no call in the \<open>try\<close> block throws
  for a string.
\<close>

definition parseTimestamp :: "(string \<Rightarrow> int option) \<Rightarrow> int \<Rightarrow> string \<Rightarrow> jsdate option" where
  "parseTimestamp parse now ts =
     (if ts = [] then None
      else if CHR ''T'' \<in> set ts \<and> CHR ''Z'' \<in> set ts then Some (newDate parse ts)
      else case relativeMatch ts of
             Some (ds, u) \<Rightarrow> Some (timeClip (now - digitsValue ds * unitMillis u))
           | None \<Rightarrow> Some (newDate parse ts))"

text \<open>Subtraction of two dates: NaN (\<open>None\<close>) when either is invalid.\<close>

fun dateDiff :: "jsdate \<Rightarrow> jsdate \<Rightarrow> int option" where
  "dateDiff (Date a) (Date b) = Some (a - b)"
| "dateDiff _ _ = None"

section \<open>Sorting and final order\<close>

text \<open>
  \<open>Array.prototype.sort\<close> with a comparator, as the engine of the browser this
  extension runs in (V8) carries it out on an array of fewer than 64 elements: the
  result of the comparator counts as 0 when it is NaN; the array starts with a run,
  either ascending (each element compares \<open>>= 0\<close> with the one before it) or strictly
  descending (each compares \<open>< 0\<close>), found by \<open>CountAndMakeRun\<close> and reversed when it
  is descending; every further element is put into the sorted part by binary search
  (\<open>BinaryInsertionSort\<close>: \<open>mid = left + ((right - left) >> 1)\<close>, go left when
  \<open>compare(pivot, a[mid]) < 0\<close>, else right). \<open>binaryInsert\<close> is the search and the
  insertion on the sorted part as a list: the middle of a range is the middle of the
  list that holds it. For 64 elements and more the engine sorts stretches of the array
  in this way and merges them; the merge is not modelled, and the model sorts the whole
  array as one stretch, which gives the same order whenever the comparator is
  consistent (lemma \<open>arraySort_sort_key\<close>).
\<close>

definition compareResult :: "int option \<Rightarrow> int" where
  "compareResult v = (case v of None \<Rightarrow> 0 | Some n \<Rightarrow> n)"

function binaryInsert :: "('a \<Rightarrow> 'a \<Rightarrow> int option) \<Rightarrow> 'a \<Rightarrow> 'a list \<Rightarrow> 'a list" where
  "binaryInsert cmp pivot xs =
     (if xs = [] then [pivot]
      else let mid = length xs div 2
           in if compareResult (cmp pivot (xs ! mid)) < 0
              then binaryInsert cmp pivot (take mid xs) @ drop mid xs
              else take (mid + 1) xs @ binaryInsert cmp pivot (drop (mid + 1) xs))"
  by pat_completeness auto
termination
  by (relation "measure (\<lambda>(cmp, pivot, xs). length xs)") auto

declare binaryInsert.simps [simp del]

fun binaryInsertionSort :: "('a \<Rightarrow> 'a \<Rightarrow> int option) \<Rightarrow> 'a list \<Rightarrow> 'a list \<Rightarrow> 'a list" where
  "binaryInsertionSort cmp run [] = run"
| "binaryInsertionSort cmp run (pivot # rest) =
     binaryInsertionSort cmp (binaryInsert cmp pivot run) rest"

fun runTail :: "('a \<Rightarrow> 'a \<Rightarrow> int option) \<Rightarrow> bool \<Rightarrow> 'a \<Rightarrow> 'a list \<Rightarrow> nat" where
  "runTail cmp isDescending previous [] = 0"
| "runTail cmp isDescending previous (current # rest) =
     (if (if isDescending then compareResult (cmp current previous) < 0
          else 0 \<le> compareResult (cmp current previous))
      then Suc (runTail cmp isDescending current rest)
      else 0)"

definition arraySort :: "('a \<Rightarrow> 'a \<Rightarrow> int option) \<Rightarrow> 'a list \<Rightarrow> 'a list" where
  "arraySort cmp xs =
     (case xs of
        a # b # rest \<Rightarrow>
          (let isDescending = compareResult (cmp b a) < 0;
               runLength = 2 + runTail cmp isDescending b rest;
               run = take runLength xs
           in binaryInsertionSort cmp (if isDescending then rev run else run)
                (drop runLength xs))
      | _ \<Rightarrow> xs)"

text \<open>The comparator of \<open>sortAndOrderPosts\<close>.\<close>

definition comparePosts :: "(string \<Rightarrow> int option) \<Rightarrow> int \<Rightarrow> post \<Rightarrow> post \<Rightarrow> int option" where
  "comparePosts parse now a b =
     (case (parseTimestamp parse now (timestamp a), parseTimestamp parse now (timestamp b)) of
        (Some timeA, Some timeB) \<Rightarrow> dateDiff timeB timeA
      | _ \<Rightarrow> Some (int (scrollPosition a) - int (scrollPosition b)))"

definition sortPosts :: "(string \<Rightarrow> int option) \<Rightarrow> int \<Rightarrow> post list \<Rightarrow> post list" where
  "sortPosts parse now posts = arraySort (comparePosts parse now) posts"

definition assignFinalOrder :: "post list \<Rightarrow> post list" where
  "assignFinalOrder posts =
     map (\<lambda>(index, p). p\<lparr>finalOrder := Some (index + 1)\<rparr>) (enumerate 0 posts)"

definition sortAndOrderPosts :: "(string \<Rightarrow> int option) \<Rightarrow> int \<Rightarrow> post list \<Rightarrow> post list" where
  "sortAndOrderPosts parse now posts = assignFinalOrder (sortPosts parse now posts)"

text \<open>
  The posts of the completion message: \<open>completeScraping\<close> applies
  \<open>removeDuplicatePosts\<close> and then \<open>sortAndOrderPosts\<close> to the values of the map.
\<close>

definition finalPosts :: "(string \<Rightarrow> int option) \<Rightarrow> int \<Rightarrow> post list \<Rightarrow> post list" where
  "finalPosts parse now posts = sortAndOrderPosts parse now (removeDuplicatePosts posts)"

section \<open>Engagement counts\<close>

text \<open>
  JavaScript numbers are IEEE binary64 values. \<open>toDouble\<close> rounds a non-negative
  rational to the nearest binary64 value, ties to even, with the subnormal range and the
  overflow to \<open>Infinity\<close>; a finite number is kept as the rational it denotes.
\<close>

function ilog2 :: "int \<Rightarrow> int" where
  "ilog2 n = (if n < 2 then 0 else 1 + ilog2 (n div 2))"
  by pat_completeness auto
termination
  by (relation "measure nat") auto

declare ilog2.simps [simp del]

definition pow2 :: "int \<Rightarrow> rat" where
  "pow2 e = (if 0 \<le> e then 2 ^ nat e else 1 / 2 ^ nat (- e))"

definition roundHalfEven :: "rat \<Rightarrow> int" where
  "roundHalfEven q =
     (let f = \<lfloor>q\<rfloor>; r = q - of_int f
      in if r < 1 / 2 then f else if 1 / 2 < r then f + 1 else if even f then f else f + 1)"

definition toDouble :: "rat \<Rightarrow> jsnum" where
  "toDouble x =
     (if x \<le> 0 then Num 0
      else let (p, q) = quotient_of x;
               e0 = ilog2 p - ilog2 q;
               e = (if pow2 e0 \<le> x then e0 else e0 - 1);
               ulp = pow2 (max e (- 1022) - 52);
               y = of_int (roundHalfEven (x / ulp)) * ulp
           in if pow2 1024 \<le> y then PosInfinity else Num y)"

text \<open>
  \<open>parseFloat\<close> and \<open>parseInt\<close> on the text left by
  \<open>text.replace(/[^\d.KMkm]/g, "")\<close>: no sign, exponent, blank or hexadecimal prefix
  can occur in it. \<open>parseFloat\<close> reads the longest prefix of the shape digits, then
  optionally a dot and digits, and is NaN when that prefix holds no digit;
  \<open>parseInt\<close> reads the leading digits and is NaN when there are none. Both
  round the exact decimal value; for more than 20 significant digits the standard lets
  an engine drop the later ones.
\<close>

definition cleanCountText :: "string \<Rightarrow> string" where
  "cleanCountText text = filter (\<lambda>c. isDigit c \<or> c \<in> set ''.KMkm'') text"

definition parseFloat :: "string \<Rightarrow> jsnum" where
  "parseFloat str =
     (let ip = takeWhile isDigit str;
          rest = dropWhile isDigit str;
          fp = (case rest of [] \<Rightarrow> [] | c # r \<Rightarrow> if c = CHR ''.'' then takeWhile isDigit r else [])
      in if ip = [] \<and> fp = [] then NaN
         else toDouble (of_int (digitsValue ip) + of_int (digitsValue fp) / 10 ^ length fp))"

definition parseInt :: "string \<Rightarrow> jsnum" where
  "parseInt str =
     (let ds = takeWhile isDigit str
      in if ds = [] then NaN else toDouble (of_int (digitsValue ds)))"

text \<open>\<open>x * k\<close> for a positive constant \<open>k\<close>, \<open>Math.floor(x)\<close> and \<open>x || 0\<close>.\<close>

fun jsTimes :: "jsnum \<Rightarrow> rat \<Rightarrow> jsnum" where
  "jsTimes (Num x) k = toDouble (x * k)"
| "jsTimes NaN k = NaN"
| "jsTimes PosInfinity k = PosInfinity"

fun mathFloor :: "jsnum \<Rightarrow> jsnum" where
  "mathFloor (Num x) = Num (of_int \<lfloor>x\<rfloor>)"
| "mathFloor NaN = NaN"
| "mathFloor PosInfinity = PosInfinity"

fun orZero :: "jsnum \<Rightarrow> jsnum" where
  "orZero NaN = Num 0"
| "orZero x = x"

definition parseCount :: "string \<Rightarrow> jsnum" where
  "parseCount text =
     (if text = [] then Num 0
      else let cleanText = cleanCountText text
           in if CHR ''K'' \<in> set cleanText \<or> CHR ''k'' \<in> set cleanText
              then mathFloor (jsTimes (parseFloat cleanText) 1000)
              else if CHR ''M'' \<in> set cleanText \<or> CHR ''m'' \<in> set cleanText
              then mathFloor (jsTimes (parseFloat cleanText) 1000000)
              else orZero (parseInt cleanText))"

text \<open>
  \<open>SelectorUtils.parseEngagementCount\<close> has the same body inside a \<open>try\<close> whose
  \<open>catch\<close> returns 0; nothing in the body throws for a string.
\<close>

definition parseEngagementCount :: "string \<Rightarrow> jsnum" where
  "parseEngagementCount text = parseCount text"

section \<open>Extraction and admission\<close>

text \<open>
  The DOM is not modelled. A candidate node is the record of what the field extractors
  return for it: \<open>isElementVisible\<close>, \<open>isValidPost\<close>, \<open>generatePostId\<close>,
  \<open>extractPostText\<close>, \<open>extractTimestamp\<close>, \<open>extractAuthor\<close>,
  \<open>extractPostUrl\<close>, \<open>extractEngagementMetrics\<close> (whose counts come from
  \<open>parseCount\<close>), \<open>extractMediaInfo\<close>, \<open>extractPostMetadata\<close> and the clock
  string of \<open>scrapedAt\<close>. A view of the page is the list of nodes that the first
  matching selector of \<open>extractPostsFromDOM\<close> returns.
\<close>

record element =
  visible :: bool
  validPost :: bool
  generatedId :: string
  extractedText :: string
  extractedTimestamp :: string
  extractedAuthor :: string
  extractedUrl :: string
  extractedMetrics :: post_metrics
  extractedMedia :: "media_item list"
  extractedMetadata :: post_metadata
  extractionTime :: string

record date_range =
  oldest :: int
  newest :: int
  span :: int

record scraping_stats =
  totalPosts :: nat
  totalScrolls :: nat
  postsWithMedia :: nat
  postsWithText :: nat
  retweetPosts :: nat
  replyPosts :: nat
  threads :: nat
  verifiedPosts :: nat
  languages :: "string list"
  dateRange :: "date_range option"

text \<open>
  The messages handed to \<open>chrome.runtime.sendMessage\<close>. A progress update carries
  its message text, \<open>stats.postsFound\<close>, \<open>scrollCount\<close> and \<open>stats.isActive\<close>;
  its percentage and clock string are left out. \<open>LogError\<close> is the report of
  \<open>SimpleErrorHandler.logError\<close>, with context and message.
\<close>

datatype message =
    ScrapingStarted
  | UpdateProgress string nat nat bool
  | ScrapingComplete "post list" nat scraping_stats
  | ScrapingError string
  | LogError string string

text \<open>
  The fields of \<open>XProfileScraper\<close> that the run reads or writes. \<open>scrapedPosts\<close>
  is the \<open>Map\<close> in insertion order. \<open>maxPosts\<close> is \<open>settings.maxPosts\<close>, with
  \<open>None\<close> for NaN. Two parts of the surroundings ride along: \<open>sent\<close>, the messages
  sent so far, oldest first, and \<open>stopTimers\<close>, the number of pending 500 ms timers set
  by \<open>stopScraping\<close>.
\<close>

record scraper =
  isScrapingActive :: bool
  scrapedPosts :: "(string \<times> post) list"
  scrollCount :: nat
  maxPosts :: "int option"
  noNewContentCount :: nat
  sent :: "message list"
  stopTimers :: nat

datatype outcome = Returned scraper | Threw string scraper

definition sendMessage :: "message \<Rightarrow> scraper \<Rightarrow> scraper" where
  "sendMessage m s = s\<lparr>sent := sent s @ [m]\<rparr>"

definition sendProgressUpdate :: "string \<Rightarrow> scraper \<Rightarrow> scraper" where
  "sendProgressUpdate msg s =
     sendMessage (UpdateProgress msg (length (scrapedPosts s)) (scrollCount s) (isScrapingActive s)) s"

definition extractPostData :: "scraper \<Rightarrow> element \<Rightarrow> post option" where
  "extractPostData s el =
     (if extractedText el = [] \<and> extractedMedia el = [] then None
      else Some \<lparr>post_id = generatedId el,
                  post_order = length (scrapedPosts s) + 1,
                  post_text = extractedText el,
                  author = extractedAuthor el,
                  timestamp = extractedTimestamp el,
                  url = extractedUrl el,
                  metrics = extractedMetrics el,
                  media = extractedMedia el,
                  metadata = extractedMetadata el,
                  scrapedAt = extractionTime el,
                  scrollPosition = scrollCount s,
                  finalOrder = None\<rparr>)"

definition isValidPostData :: "post \<Rightarrow> bool" where
  "isValidPostData p = (post_id p \<noteq> [] \<and> (post_text p \<noteq> [] \<or> media p \<noteq> []))"

definition extractPostsFromDOM :: "scraper \<Rightarrow> element list \<Rightarrow> post list" where
  "extractPostsFromDOM s nodes =
     List.map_filter
       (\<lambda>el. case extractPostData s el of
               None \<Rightarrow> None
             | Some p \<Rightarrow> if isValidPostData p then Some p else None)
       (filter (\<lambda>el. visible el \<and> validPost el) nodes)"

text \<open>
  The body of the \<open>forEach\<close> in \<open>scrapeCurrentPosts\<close>:
  \<open>if (post.id && !this.scrapedPosts.has(post.id)) this.scrapedPosts.set(post.id, post)\<close>.
  \<open>admitted\<close> is the test, \<open>admit\<close> the update of the map.
\<close>

definition admitted :: "post \<Rightarrow> (string \<times> post) list \<Rightarrow> bool" where
  "admitted p m = (post_id p \<noteq> [] \<and> post_id p \<notin> fst ` set m)"

definition admit :: "(string \<times> post) list \<Rightarrow> post \<Rightarrow> (string \<times> post) list" where
  "admit m p = (if admitted p m then m @ [(post_id p, p)] else m)"

text \<open>
  \<open>scrapeCurrentPosts\<close> first awaits \<open>waitForElement('[data-testid="primaryColumn"]', 5000)\<close>,
  which rejects with the message \<open>columnTimeout\<close> when the column does not show up
  in time; \<open>columnFound\<close> says whether it does.
\<close>

definition columnTimeout :: string where
  "columnTimeout =
     ''Element [data-testid='' @ [CHR 0x22] @ ''primaryColumn'' @ [CHR 0x22] @
     ''] not found within 5000ms''"

definition scrapeCurrentPosts :: "bool \<Rightarrow> element list \<Rightarrow> scraper \<Rightarrow> outcome" where
  "scrapeCurrentPosts columnFound nodes s =
     (if \<not> columnFound then Threw columnTimeout s
      else Returned (sendProgressUpdate []
             (s\<lparr>scrapedPosts := foldl admit (scrapedPosts s) (extractPostsFromDOM s nodes)\<rparr>)))"

section \<open>Finalization\<close>

text \<open>
  \<open>getDateRange\<close> keeps every non-null result of \<open>parseTimestamp\<close>, sorts with
  \<open>(a, b) => a - b\<close> and calls \<open>toISOString\<close> on the first and the last date,
  which throws a \<open>RangeError\<close> on an Invalid Date. The two ends are kept as time
  values; their ISO rendering is not modelled.
\<close>

definition getDateRange ::
  "(string \<Rightarrow> int option) \<Rightarrow> int \<Rightarrow> post list \<Rightarrow> string + date_range option" where
  "getDateRange parse now posts =
     (let dates = arraySort dateDiff
                    (List.map_filter (\<lambda>p. parseTimestamp parse now (timestamp p)) posts)
      in if dates = [] then Inr None
         else case (hd dates, last dates) of
                (Date t0, Date t1) \<Rightarrow>
                  Inr (Some \<lparr>oldest = t0, newest = t1,
                             span = (if 1 < length dates then t1 - t0 else 0)\<rparr>)
              | _ \<Rightarrow> Inl ''Invalid time value'')"

text \<open>\<open>[...new Set(xs)]\<close>: the first occurrence of every value, in order.\<close>

definition uniqueInOrder :: "'a list \<Rightarrow> 'a list" where
  "uniqueInOrder xs = rev (remdups (rev xs))"

definition getScrapingStats ::
  "(string \<Rightarrow> int option) \<Rightarrow> int \<Rightarrow> nat \<Rightarrow> post list \<Rightarrow> string + scraping_stats" where
  "getScrapingStats parse now scrolls posts =
     (case getDateRange parse now posts of
        Inl err \<Rightarrow> Inl err
      | Inr dates \<Rightarrow>
          Inr \<lparr>totalPosts = length posts,
               totalScrolls = scrolls,
               postsWithMedia = length (filter (\<lambda>p. media p \<noteq> []) posts),
               postsWithText = length (filter (\<lambda>p. post_text p \<noteq> []) posts),
               retweetPosts = length (filter (\<lambda>p. isRetweet (metadata p)) posts),
               replyPosts = length (filter (\<lambda>p. isReply (metadata p)) posts),
               threads = length (filter (\<lambda>p. hasThread (metadata p)) posts),
               verifiedPosts = length (filter (\<lambda>p. verified (metadata p)) posts),
               languages = uniqueInOrder
                             (filter (\<lambda>l. l \<noteq> []) (map (\<lambda>p. language (metadata p)) posts)),
               dateRange = dates\<rparr>)"

text \<open>
  \<open>completeScraping\<close>. The post objects of the message are the ones held by the map,
  so the \<open>finalOrder\<close> written by \<open>sortAndOrderPosts\<close> shows in the map too. The
  statistics are computed before the message is sent; when they throw, nothing is sent.
\<close>

definition completeScraping :: "(string \<Rightarrow> int option) \<Rightarrow> int \<Rightarrow> scraper \<Rightarrow> outcome" where
  "completeScraping parse now s =
     (let posts = finalPosts parse now (map snd (scrapedPosts s));
          s1 = s\<lparr>isScrapingActive := False,
                 scrapedPosts :=
                   map (\<lambda>(k, p). (k, case find (\<lambda>q. post_id q = k) posts of
                                        Some q \<Rightarrow> q | None \<Rightarrow> p))
                       (scrapedPosts s)\<rparr>
      in case getScrapingStats parse now (scrollCount s1) posts of
           Inl err \<Rightarrow> Threw err s1
         | Inr stats \<Rightarrow> Returned (sendMessage (ScrapingComplete posts (scrollCount s1) stats) s1))"

section \<open>Stop requests\<close>

text \<open>
  \<open>stopScraping\<close> clears the flag, sends a progress update and sets a 500 ms timer.
  When the timer fires, its callback calls \<open>completeScraping\<close> if the flag is still
  cleared; an error thrown inside the callback reaches nobody.
\<close>

definition stopScraping :: "scraper \<Rightarrow> scraper" where
  "stopScraping s =
     (let s1 = sendProgressUpdate ''Stopping scraper...'' (s\<lparr>isScrapingActive := False\<rparr>)
      in s1\<lparr>stopTimers := stopTimers s1 + 1\<rparr>)"

definition stopTimerFires :: "(string \<Rightarrow> int option) \<Rightarrow> int \<Rightarrow> scraper \<Rightarrow> scraper" where
  "stopTimerFires parse now s =
     (let s1 = s\<lparr>stopTimers := stopTimers s - 1\<rparr>
      in if \<not> isScrapingActive s1
         then (case completeScraping parse now s1 of Returned s2 \<Rightarrow> s2 | Threw err s2 \<Rightarrow> s2)
         else s1)"

fun fireStopTimers :: "nat \<Rightarrow> (string \<Rightarrow> int option) \<Rightarrow> int \<Rightarrow> scraper \<Rightarrow> scraper" where
  "fireStopTimers 0 parse now s = s"
| "fireStopTimers (Suc n) parse now s = fireStopTimers n parse now (stopTimerFires parse now s)"

section \<open>The scroll loop\<close>

text \<open>
  What the page, the clock and the user do during one iteration of the \<open>while\<close>
  loop of \<open>startAutoScroll\<close>: whether the scroll call throws, whether a stop request
  arrives while the loop sleeps in \<open>performScroll\<close>, in \<open>waitForNewContent\<close> or in
  the delay that ends the iteration, whether \<open>waitForNewContent\<close> sees new content,
  whether the primary column is found, the nodes found, the reading of \<open>Date.now()\<close>
  in the silence check, and the answer of \<open>checkForRateLimiting\<close>. A stop request is
  handled only while the loop sleeps, and the sleeping loop polls the flag every 100 ms,
  so the loop is past its next check before the 500 ms timer of the request fires.
\<close>

record pass =
  scrollFails :: bool
  stopInScroll :: bool
  stopInWait :: bool
  newContent :: bool
  columnShown :: bool
  view :: "element list"
  dateNow :: int
  rateLimitSeen :: bool
  stopInDelay :: bool

record loop_vars =
  consecutiveEmptyScrolls :: nat
  noNewPostsStartTime :: "int option"

datatype step = Break scraper | Continue loop_vars scraper | Raise string scraper

definition reachedMax :: "scraper \<Rightarrow> bool" where
  "reachedMax s =
     (case maxPosts s of None \<Rightarrow> False | Some m \<Rightarrow> m \<le> int (length (scrapedPosts s)))"

text \<open>\<open>performScroll\<close>: the flag \<open>success\<close> and the state.\<close>

definition performScroll :: "pass \<Rightarrow> scraper \<Rightarrow> bool \<times> scraper" where
  "performScroll e s =
     (if scrollFails e then (False, s)
      else let s1 = s\<lparr>scrollCount := scrollCount s + 1\<rparr>
           in (True, if stopInScroll e then stopScraping s1 else s1))"

definition waitForNewContent :: "pass \<Rightarrow> scraper \<Rightarrow> scraper" where
  "waitForNewContent e s =
     (let s1 = (if stopInWait e then stopScraping s else s)
      in if newContent e then s1\<lparr>noNewContentCount := 0\<rparr>
         else s1\<lparr>noNewContentCount := noNewContentCount s1 + 1\<rparr>)"

text \<open>
  The block "Track when we stop finding new posts": \<open>None\<close> is its \<open>break\<close>,
  otherwise the loop variables as it leaves them.
\<close>

definition trackSilence :: "int \<Rightarrow> nat \<Rightarrow> loop_vars \<Rightarrow> loop_vars option" where
  "trackSilence now newPostsFound v =
     (if newPostsFound = 0 then
        (case noNewPostsStartTime v of
           None \<Rightarrow> Some (v\<lparr>noNewPostsStartTime := Some now,
                            consecutiveEmptyScrolls := consecutiveEmptyScrolls v + 1\<rparr>)
         | Some t0 \<Rightarrow>
             if 5000 \<le> now - t0 then None
             else Some (v\<lparr>consecutiveEmptyScrolls := consecutiveEmptyScrolls v + 1\<rparr>))
      else Some (v\<lparr>noNewPostsStartTime := None, consecutiveEmptyScrolls := 0\<rparr>))"

text \<open>One iteration of the loop body, entered with the flag set.\<close>

definition scrollPass :: "pass \<Rightarrow> loop_vars \<Rightarrow> scraper \<Rightarrow> step" where
  "scrollPass e v s =
     (if reachedMax s then Break s
      else case performScroll e s of
        (False, s1) \<Rightarrow> Break s1
      | (True, s1) \<Rightarrow>
          if \<not> isScrapingActive s1 then Break s1
          else let s2 = waitForNewContent e s1
               in if \<not> isScrapingActive s2 then Break s2
                  else case scrapeCurrentPosts (columnShown e) (view e) s2 of
                         Threw err s3 \<Rightarrow> Raise err s3
                       | Returned s3 \<Rightarrow>
                           if reachedMax s3 then Break s3
                           else case trackSilence (dateNow e)
                                       (length (scrapedPosts s3) - length (scrapedPosts s)) v of
                                  None \<Rightarrow> Break s3
                                | Some v' \<Rightarrow>
                                    if 2 \<le> consecutiveEmptyScrolls v' then Break s3
                                    else if rateLimitSeen e then Break s3
                                    else if \<not> isScrapingActive s3 then Break s3
                                    else Continue v'
                                           (if stopInDelay e then stopScraping s3 else s3))"

text \<open>
  The \<open>while (this.isScrapingActive)\<close> loop over the iterations the surroundings
  provide; \<open>None\<close> when they are used up before the loop has ended.
\<close>

fun scrollLoop :: "pass list \<Rightarrow> loop_vars \<Rightarrow> scraper \<Rightarrow> outcome option" where
  "scrollLoop [] v s = (if \<not> isScrapingActive s then Some (Returned s) else None)"
| "scrollLoop (e # rest) v s =
     (if \<not> isScrapingActive s then Some (Returned s)
      else case scrollPass e v s of
             Break s' \<Rightarrow> Some (Returned s')
           | Continue v' s' \<Rightarrow> scrollLoop rest v' s'
           | Raise err s' \<Rightarrow> Some (Threw err s'))"

definition startAutoScroll ::
  "(string \<Rightarrow> int option) \<Rightarrow> int \<Rightarrow> pass list \<Rightarrow> scraper \<Rightarrow> outcome option" where
  "startAutoScroll parse now ps s =
     (case scrollLoop ps \<lparr>consecutiveEmptyScrolls = 0, noNewPostsStartTime = None\<rparr> s of
        None \<Rightarrow> None
      | Some (Threw err s') \<Rightarrow> Some (Threw err s')
      | Some (Returned s') \<Rightarrow> Some (completeScraping parse now s'))"

section \<open>A run\<close>

text \<open>
  \<open>/^https:\/\/(x|twitter)\.com\/[^\/]+\/?$/\<close>: one of the two hosts, one non-empty
  path segment, at most one slash after it.
\<close>

definition stripPrefix :: "string \<Rightarrow> string \<Rightarrow> string option" where
  "stripPrefix pre str =
     (if take (length pre) str = pre then Some (drop (length pre) str) else None)"

definition isXProfilePage :: "string \<Rightarrow> bool" where
  "isXProfilePage address =
     (case (case stripPrefix ''https://x.com/'' address of
              Some r \<Rightarrow> Some r
            | None \<Rightarrow> stripPrefix ''https://twitter.com/'' address) of
        None \<Rightarrow> False
      | Some r \<Rightarrow>
          (let seg = takeWhile (\<lambda>c. c \<noteq> CHR ''/'') r;
               tail = dropWhile (\<lambda>c. c \<noteq> CHR ''/'') r
           in seg \<noteq> [] \<and> (tail = [] \<or> tail = ''/'')))"

text \<open>
  The surroundings of one run: the address of the page, \<open>settings.maxPosts\<close> as the
  popup sends it (\<open>parseInt\<close> of a field; \<open>None\<close> is NaN), the first view of the
  page, the iterations of the loop, and the clock readings used to resolve timestamps
  when the run completes and when a stop timer fires.
\<close>

record run =
  pageAddress :: string
  requestedMaxPosts :: "int option"
  firstColumnShown :: bool
  firstView :: "element list"
  passes :: "pass list"
  completionClock :: int
  timerClock :: int

text \<open>The constructor of \<open>XProfileScraper\<close>.\<close>

definition newScraper :: scraper where
  "newScraper =
     \<lparr>isScrapingActive = False, scrapedPosts = [], scrollCount = 0, maxPosts = Some 100,
      noNewContentCount = 0, sent = [], stopTimers = 0\<rparr>"

text \<open>The \<open>catch\<close> block of \<open>startScraping\<close>, which rethrows.\<close>

definition startFailed :: "string \<Rightarrow> scraper \<Rightarrow> outcome" where
  "startFailed err s =
     Threw err
       (sendMessage (ScrapingError (''Scraping failed: '' @ err))
          (sendMessage (LogError ''SCRAPING_INITIALIZATION'' err)
             (s\<lparr>isScrapingActive := False\<rparr>)))"

definition startScraping :: "(string \<Rightarrow> int option) \<Rightarrow> run \<Rightarrow> scraper \<Rightarrow> outcome option" where
  "startScraping parse r s =
     (if \<not> isXProfilePage (pageAddress r)
      then Some (startFailed ''Not on a valid X profile page'' s)
      else let s1 = s\<lparr>maxPosts := requestedMaxPosts r, isScrapingActive := True,
                       scrapedPosts := [], scrollCount := 0, noNewContentCount := 0\<rparr>;
               s2 = sendProgressUpdate ''Initializing scraper...'' (sendMessage ScrapingStarted s1)
           in case scrapeCurrentPosts (firstColumnShown r) (firstView r) s2 of
                Threw err s3 \<Rightarrow> Some (startFailed err s3)
              | Returned s3 \<Rightarrow>
                  (case startAutoScroll parse (completionClock r) (passes r) s3 of
                     None \<Rightarrow> None
                   | Some (Threw err s4) \<Rightarrow> Some (startFailed err s4)
                   | Some (Returned s4) \<Rightarrow> Some (Returned s4)))"

text \<open>
  \<open>handleMessage\<close> for the action \<open>startScraping\<close>: its own \<open>catch\<close> reports
  the error once more. \<open>runScraper\<close> is a whole run from a fresh scraper: the start
  message is handled, then the pending stop timers fire.
\<close>

definition handleStart :: "(string \<Rightarrow> int option) \<Rightarrow> run \<Rightarrow> scraper \<Rightarrow> scraper option" where
  "handleStart parse r s =
     (case startScraping parse r s of
        None \<Rightarrow> None
      | Some (Returned s') \<Rightarrow> Some s'
      | Some (Threw err s') \<Rightarrow> Some (sendMessage (ScrapingError err) s'))"

definition runScraper :: "(string \<Rightarrow> int option) \<Rightarrow> run \<Rightarrow> scraper option" where
  "runScraper parse r =
     (case handleStart parse r newScraper of
        None \<Rightarrow> None
      | Some s \<Rightarrow> Some (fireStopTimers (stopTimers s) parse (timerClock r) s))"

section \<open>Notions used in the statements\<close>

text \<open>
  The resolved timestamp of a post, when \<open>parseTimestamp\<close> gives a valid date, and
  the key by which posts with resolved timestamps are ordered.
\<close>

definition resolvedTime :: "(string \<Rightarrow> int option) \<Rightarrow> int \<Rightarrow> post \<Rightarrow> int option" where
  "resolvedTime parse now p =
     (case parseTimestamp parse now (timestamp p) of Some (Date t) \<Rightarrow> Some t | _ \<Rightarrow> None)"

definition timeKey :: "(string \<Rightarrow> int option) \<Rightarrow> int \<Rightarrow> post \<Rightarrow> int" where
  "timeKey parse now p = (case resolvedTime parse now p of Some t \<Rightarrow> - t | None \<Rightarrow> 0)"

text \<open>
  The order as the specification words it, for comparison with \<open>sortAndOrderPosts\<close>:
  of two posts with resolved timestamps the later one never comes second, and any other
  two posts stand in ascending \<open>scrollPosition\<close>.
\<close>

definition specifiedOrder :: "(string \<Rightarrow> int option) \<Rightarrow> int \<Rightarrow> post list \<Rightarrow> bool" where
  "specifiedOrder parse now out =
     sorted_wrt
       (\<lambda>a b. case (resolvedTime parse now a, resolvedTime parse now b) of
                (Some ta, Some tb) \<Rightarrow> tb \<le> ta
              | _ \<Rightarrow> scrollPosition a \<le> scrollPosition b)
       out"

fun isProgress :: "message \<Rightarrow> bool" where
  "isProgress (UpdateProgress msg found scrolls active) = True"
| "isProgress _ = False"

fun isCompletion :: "message \<Rightarrow> bool" where
  "isCompletion (ScrapingComplete posts n stats) = True"
| "isCompletion _ = False"

fun uniqueKeysMessage :: "message \<Rightarrow> bool" where
  "uniqueKeysMessage (ScrapingComplete posts n stats) =
     (distinct (map post_id posts) \<and> distinct (map createContentHash posts))"
| "uniqueKeysMessage _ = True"

fun stepState :: "step \<Rightarrow> scraper" where
  "stepState (Break s) = s"
| "stepState (Continue v s) = s"
| "stepState (Raise err s) = s"

fun isBreak :: "step \<Rightarrow> bool" where
  "isBreak (Break s) = True"
| "isBreak _ = False"

fun outcomeState :: "outcome \<Rightarrow> scraper" where
  "outcomeState (Returned s) = s"
| "outcomeState (Threw err s) = s"

text \<open>The statistics of a completion without posts, after the given number of scrolls.\<close>

definition emptyStats :: "nat \<Rightarrow> scraping_stats" where
  "emptyStats scrolls =
     \<lparr>totalPosts = 0, totalScrolls = scrolls, postsWithMedia = 0, postsWithText = 0,
      retweetPosts = 0, replyPosts = 0, threads = 0, verifiedPosts = 0, languages = [],
      dateRange = None\<rparr>"

text \<open>
  A run that found nothing ends quietly: no post, the flag cleared, a completion message
  without posts last, and before it only the start message, progress updates and such
  completion messages.
\<close>

definition quietMessage :: "nat \<Rightarrow> message \<Rightarrow> bool" where
  "quietMessage n m =
     (isProgress m \<or> m = ScrapingStarted \<or> m = ScrapingComplete [] n (emptyStats n))"

definition endedQuietly :: "scraper \<Rightarrow> bool" where
  "endedQuietly s =
     (scrapedPosts s = [] \<and> \<not> isScrapingActive s \<and> sent s \<noteq> [] \<and>
      last (sent s) = ScrapingComplete [] (scrollCount s) (emptyStats (scrollCount s)) \<and>
      list_all (quietMessage (scrollCount s)) (sent s))"

text \<open>
  The map as \<open>scrapeCurrentPosts\<close> leaves it in an iteration that starts from \<open>s\<close>
  and reaches the extraction: the scroll has been counted by then.
\<close>

definition passPosts :: "pass \<Rightarrow> scraper \<Rightarrow> (string \<times> post) list" where
  "passPosts e s =
     foldl admit (scrapedPosts s)
       (extractPostsFromDOM (s\<lparr>scrollCount := scrollCount s + 1\<rparr>) (view e))"

section \<open>Example data\<close>

text \<open>
  \<open>Date.parse\<close> on text that no engine recognises as a date: NaN. The examples
  apply it to such text only.
\<close>

definition unrecognised :: "string \<Rightarrow> int option" where
  "unrecognised str = None"

definition noMetrics :: post_metrics where
  "noMetrics = \<lparr>replies = Num 0, retweets = Num 0, likes = Num 0, views = Num 0\<rparr>"

definition plainMetadata :: post_metadata where
  "plainMetadata =
     \<lparr>isRetweet = False, isReply = False, hasThread = False, language = ''en'',
      verified = False\<rparr>"

text \<open>A visible node with an id, a text and a timestamp, and the post extracted from it.\<close>

definition exampleNode :: "string \<Rightarrow> string \<Rightarrow> string \<Rightarrow> element" where
  "exampleNode i txt ts =
     \<lparr>visible = True, validPost = True, generatedId = i, extractedText = txt,
      extractedTimestamp = ts, extractedAuthor = ''Some User'',
      extractedUrl = ''https://x.com/someuser/status/'' @ i, extractedMetrics = noMetrics,
      extractedMedia = [], extractedMetadata = plainMetadata,
      extractionTime = ''2023-11-14T22:13:20.000Z''\<rparr>"

definition examplePost :: "string \<Rightarrow> string \<Rightarrow> string \<Rightarrow> nat \<Rightarrow> nat \<Rightarrow> nat option \<Rightarrow> post" where
  "examplePost i txt ts ord pos fin =
     \<lparr>post_id = i, post_order = ord, post_text = txt, author = ''Some User'',
      timestamp = ts, url = ''https://x.com/someuser/status/'' @ i, metrics = noMetrics,
      media = [], metadata = plainMetadata, scrapedAt = ''2023-11-14T22:13:20.000Z'',
      scrollPosition = pos, finalOrder = fin\<rparr>"

text \<open>An iteration in which nothing happens: no node, no stop, no signal.\<close>

definition quietPass :: "int \<Rightarrow> pass" where
  "quietPass t =
     \<lparr>scrollFails = False, stopInScroll = False, stopInWait = False, newContent = False,
      columnShown = True, view = [], dateNow = t, rateLimitSeen = False,
      stopInDelay = False\<rparr>"

definition exampleRun :: "int option \<Rightarrow> bool \<Rightarrow> element list \<Rightarrow> pass list \<Rightarrow> run" where
  "exampleRun limit column nodes ps =
     \<lparr>pageAddress = ''https://x.com/someuser'', requestedMaxPosts = limit,
      firstColumnShown = column, firstView = nodes, passes = ps,
      completionClock = 1700000010000, timerClock = 1700000010500\<rparr>"

text \<open>
  Three posts of a first view, in the order of the page: a pinned older post, a post
  whose node has no time element, and a newer post. All carry \<open>scrollPosition\<close> 0.
\<close>

definition olderPost :: post where
  "olderPost = examplePost ''101'' ''older post'' ''5h'' 1 0 None"

definition untimedPost :: post where
  "untimedPost = examplePost ''102'' ''post without time'' [] 1 0 None"

definition newerPost :: post where
  "newerPost = examplePost ''103'' ''newer post'' ''2h'' 1 0 None"

text \<open>A run whose first view shows two posts and whose limit is two posts.\<close>

definition twoPostRun :: run where
  "twoPostRun =
     exampleRun (Some 2) True
       [exampleNode ''101'' ''first post'' ''5h'', exampleNode ''102'' ''second post'' ''2h'']
       [quietPass 1700000000000]"

definition twoPostOutput :: "post list" where
  "twoPostOutput =
     [examplePost ''102'' ''second post'' ''2h'' 1 0 (Some 1),
      examplePost ''101'' ''first post'' ''5h'' 1 0 (Some 2)]"

definition twoPostStats :: scraping_stats where
  "twoPostStats =
     \<lparr>totalPosts = 2, totalScrolls = 0, postsWithMedia = 0, postsWithText = 2,
      retweetPosts = 0, replyPosts = 0, threads = 0, verifiedPosts = 0,
      languages = [''en''],
      dateRange = Some \<lparr>oldest = 1699982010000, newest = 1699992810000, span = 10800000\<rparr>\<rparr>"

definition twoPostEnd :: scraper where
  "twoPostEnd =
     \<lparr>isScrapingActive = False,
      scrapedPosts =
        [(''101'', examplePost ''101'' ''first post'' ''5h'' 1 0 (Some 2)),
         (''102'', examplePost ''102'' ''second post'' ''2h'' 1 0 (Some 1))],
      scrollCount = 0, maxPosts = Some 2, noNewContentCount = 0,
      sent =
        [ScrapingStarted,
         UpdateProgress ''Initializing scraper...'' 0 0 True,
         UpdateProgress [] 2 0 True,
         ScrapingComplete twoPostOutput 0 twoPostStats],
      stopTimers = 0\<rparr>"

text \<open>
  An iteration in which the page grows but shows only the post of the first view again,
  and runs built from it: three such iterations three seconds apart, and one iteration
  with a stop request during its closing delay.
\<close>

definition repeatPass :: "int \<Rightarrow> pass" where
  "repeatPass t =
     \<lparr>scrollFails = False, stopInScroll = False, stopInWait = False, newContent = True,
      columnShown = True, view = [exampleNode ''101'' ''first post'' ''5h''], dateNow = t,
      rateLimitSeen = False, stopInDelay = False\<rparr>"


definition onePostStats :: "nat \<Rightarrow> int \<Rightarrow> scraping_stats" where
  "onePostStats scrolls t =
     \<lparr>totalPosts = 1, totalScrolls = scrolls, postsWithMedia = 0, postsWithText = 1,
      retweetPosts = 0, replyPosts = 0, threads = 0, verifiedPosts = 0,
      languages = [''en''],
      dateRange = Some \<lparr>oldest = t, newest = t, span = 0\<rparr>\<rparr>"

definition stoppedRun :: run where
  "stoppedRun =
     exampleRun (Some 100) True [exampleNode ''101'' ''first post'' ''5h'']
       [(repeatPass 1700000000000)\<lparr>stopInDelay := True\<rparr>]"

text \<open>Runs on a page without posts: with the primary column, and without it.\<close>

definition emptyFeedRun :: run where
  "emptyFeedRun =
     exampleRun (Some 100) True [] [quietPass 1700000000000, quietPass 1700000012000]"

definition noColumnRun :: run where
  "noColumnRun =
     exampleRun (Some 100) False [] [quietPass 1700000000000, quietPass 1700000012000]"

text \<open>
  Two posts with the same text, timestamp and author under different ids, as a node
  without permalink yields them in two passes (\<open>generatePostId\<close> then hashes the text
  together with the clock).
\<close>

definition firstSighting :: post where
  "firstSighting = examplePost ''7001'' ''same words'' ''2h'' 1 0 None"

definition secondSighting :: post where
  "secondSighting = examplePost ''7002'' ''same words'' ''2h'' 2 1 None"

definition otherWords :: post where
  "otherWords = examplePost ''7002'' ''other words'' ''3h'' 2 1 None"

section \<open>Properties of the deduplication\<close>

lemma dedupFrom_idem: "dedupFrom seen (dedupFrom seen ps) = dedupFrom seen ps"
  by (induction ps arbitrary: seen) simp_all

lemma dedupFrom_subset: "set (dedupFrom seen ps) \<subseteq> set ps"
  by (induction ps arbitrary: seen) auto

lemma dedupFrom_fresh:
  "p \<in> set (dedupFrom seen ps) \<Longrightarrow> post_id p \<notin> seen \<and> createContentHash p \<notin> seen"
  by (induction ps arbitrary: seen) (auto split: if_splits)

lemma dedupFrom_distinct_id: "distinct (map post_id (dedupFrom seen ps))"
  by (induction ps arbitrary: seen) (auto dest: dedupFrom_fresh)

lemma dedupFrom_distinct_hash: "distinct (map createContentHash (dedupFrom seen ps))"
  by (induction ps arbitrary: seen) (auto dest: dedupFrom_fresh)

text \<open>
  C10. Running \<open>removeDuplicatePosts\<close> on its own output gives that output back, for
  every list of posts.
\<close>

theorem removeDuplicatePosts_idempotent:
  "removeDuplicatePosts (removeDuplicatePosts posts) = removeDuplicatePosts posts"
  by (simp add: removeDuplicatePosts_def dedupFrom_idem)

section \<open>Properties of the sort\<close>

lemma mset_binaryInsert: "mset (binaryInsert cmp p xs) = add_mset p (mset xs)"
proof (induction cmp p xs rule: binaryInsert.induct)
  case (1 cmp pivot xs)
  show ?case
  proof (cases "xs = []")
    case True
    then show ?thesis by (simp add: binaryInsert.simps [of cmp pivot "[]"])
  next
    case False
    let ?mid = "length xs div 2"
    show ?thesis
    proof (cases "compareResult (cmp pivot (xs ! ?mid)) < 0")
      case True
      have "mset (binaryInsert cmp pivot xs)
          = mset (binaryInsert cmp pivot (take ?mid xs)) + mset (drop ?mid xs)"
        using False True by (simp add: binaryInsert.simps [of cmp pivot xs] Let_def)
      also have "\<dots> = add_mset pivot (mset (take ?mid xs)) + mset (drop ?mid xs)"
        using "1.IH"(1) [OF False refl True] by simp
      also have "\<dots> = add_mset pivot (mset (take ?mid xs @ drop ?mid xs))"
        by (simp del: append_take_drop_id)
      finally show ?thesis by simp
    next
      case lt: False
      have "mset (binaryInsert cmp pivot xs)
          = mset (take (?mid + 1) xs) + mset (binaryInsert cmp pivot (drop (?mid + 1) xs))"
        using False lt by (simp add: binaryInsert.simps [of cmp pivot xs] Let_def)
      also have "\<dots> = mset (take (?mid + 1) xs) + add_mset pivot (mset (drop (?mid + 1) xs))"
        using "1.IH"(2) [OF False refl lt] by simp
      also have "\<dots> = add_mset pivot (mset (take (?mid + 1) xs @ drop (?mid + 1) xs))"
        by (simp del: append_take_drop_id)
      finally show ?thesis by simp
    qed
  qed
qed

lemma mset_binaryInsertionSort:
  "mset (binaryInsertionSort cmp run rest) = mset run + mset rest"
  by (induction rest arbitrary: run) (simp_all add: mset_binaryInsert)

lemma mset_arraySort: "mset (arraySort cmp xs) = mset xs"
proof (cases xs)
  case Nil
  then show ?thesis by (simp add: arraySort_def)
next
  case (Cons a ys)
  show ?thesis
  proof (cases ys)
    case Nil
    with Cons show ?thesis by (simp add: arraySort_def)
  next
    case (Cons b rest)
    define n where "n = 2 + runTail cmp (compareResult (cmp b a) < 0) b rest"
    have "mset (arraySort cmp xs) = mset (take n xs) + mset (drop n xs)"
      using \<open>xs = a # ys\<close> Cons
      by (simp add: arraySort_def Let_def mset_binaryInsertionSort n_def)
    also have "\<dots> = mset (take n xs @ drop n xs)" by (simp del: append_take_drop_id)
    finally show ?thesis by simp
  qed
qed

lemma length_assignFinalOrder: "length (assignFinalOrder ps) = length ps"
  by (simp add: assignFinalOrder_def)

lemma nth_assignFinalOrder:
  "i < length ps \<Longrightarrow> assignFinalOrder ps ! i = (ps ! i)\<lparr>finalOrder := Some (i + 1)\<rparr>"
  by (simp add: assignFinalOrder_def nth_enumerate_eq)

lemma map_post_id_assignFinalOrder: "map post_id (assignFinalOrder ps) = map post_id ps"
  by (rule nth_equalityI) (simp_all add: length_assignFinalOrder nth_assignFinalOrder)

lemma map_hash_assignFinalOrder:
  "map createContentHash (assignFinalOrder ps) = map createContentHash ps"
  by (rule nth_equalityI)
     (simp_all add: length_assignFinalOrder nth_assignFinalOrder createContentHash_def)

lemma distinct_map_arraySort: "distinct (map f (arraySort cmp xs)) = distinct (map f xs)"
proof -
  have "mset (map f (arraySort cmp xs)) = mset (map f xs)"
    by (simp add: mset_arraySort)
  then show ?thesis by (rule mset_eq_imp_distinct_iff)
qed

lemma finalPosts_unique_keys:
  "distinct (map post_id (finalPosts parse now posts)) \<and>
   distinct (map createContentHash (finalPosts parse now posts))"
  by (simp add: finalPosts_def sortAndOrderPosts_def sortPosts_def removeDuplicatePosts_def
      map_post_id_assignFinalOrder map_hash_assignFinalOrder distinct_map_arraySort
      dedupFrom_distinct_id dedupFrom_distinct_hash)

lemma binaryInsert_sorted:
  fixes key :: "'a \<Rightarrow> int"
  assumes "sorted (map key xs)"
    and "\<forall>y\<in>set xs. (compareResult (cmp p y) < 0) = (key p < key y)"
  shows "binaryInsert cmp p xs
    = filter (\<lambda>y. key y \<le> key p) xs @ [p] @ filter (\<lambda>y. key p < key y) xs"
  using assms
proof (induction cmp p xs rule: binaryInsert.induct)
  case (1 cmp pivot xs)
  show ?case
  proof (cases "xs = []")
    case True
    then show ?thesis by (simp add: binaryInsert.simps [of cmp pivot "[]"])
  next
    case False
    let ?mid = "length xs div 2"
    have mid: "?mid < length xs" using False by simp
    have split: "xs = take ?mid xs @ drop ?mid xs" by simp
    have split1: "xs = take (?mid + 1) xs @ drop (?mid + 1) xs" by simp
    have st: "sorted (map key (take ?mid xs))" "sorted (map key (drop ?mid xs))"
      "sorted (map key (take (?mid + 1) xs))" "sorted (map key (drop (?mid + 1) xs))"
      using "1.prems"(1) by (simp_all add: sorted_wrt_take sorted_wrt_drop sorted_map)
    have ag: "\<forall>y\<in>set (take n xs). (compareResult (cmp pivot y) < 0) = (key pivot < key y)"
      "\<forall>y\<in>set (drop n xs). (compareResult (cmp pivot y) < 0) = (key pivot < key y)" for n
      using "1.prems"(2) by (auto dest: in_set_takeD in_set_dropD)
    have midmem: "xs ! ?mid \<in> set xs" using mid by simp
    show ?thesis
    proof (cases "compareResult (cmp pivot (xs ! ?mid)) < 0")
      case True
      then have lt: "key pivot < key (xs ! ?mid)" using "1.prems"(2) midmem by blast
      have above: "\<forall>y\<in>set (drop ?mid xs). key pivot < key y"
      proof
        fix y assume "y \<in> set (drop ?mid xs)"
        then obtain i where i: "i < length (drop ?mid xs)" "y = drop ?mid xs ! i"
          by (metis in_set_conv_nth)
        then have "y = xs ! (?mid + i)" by simp
        moreover have "key (xs ! ?mid) \<le> key (xs ! (?mid + i))"
          using "1.prems"(1) i(1)
          by (simp add: sorted_iff_nth_mono)
        ultimately show "key pivot < key y" using lt by simp
      qed
      have f1: "filter (\<lambda>y. key y \<le> key pivot) (drop ?mid xs) = []"
        using above by (auto simp: filter_empty_conv)
      have f2: "filter (\<lambda>y. key pivot < key y) (drop ?mid xs) = drop ?mid xs"
        using above by (simp add: filter_id_conv)
      have "binaryInsert cmp pivot xs
          = binaryInsert cmp pivot (take ?mid xs) @ drop ?mid xs"
        using False True by (simp add: binaryInsert.simps [of cmp pivot xs] Let_def)
      also have "\<dots> = (filter (\<lambda>y. key y \<le> key pivot) (take ?mid xs) @ [pivot] @
          filter (\<lambda>y. key pivot < key y) (take ?mid xs)) @ drop ?mid xs"
        using "1.IH"(1) [OF False refl True st(1) ag(1)] by simp
      also have "\<dots> = filter (\<lambda>y. key y \<le> key pivot) (take ?mid xs @ drop ?mid xs) @ [pivot] @
          filter (\<lambda>y. key pivot < key y) (take ?mid xs @ drop ?mid xs)"
        unfolding filter_append f1 f2 by simp
      finally show ?thesis by simp
    next
      case ge: False
      then have le: "key (xs ! ?mid) \<le> key pivot" using "1.prems"(2) midmem by force
      have below: "\<forall>y\<in>set (take (?mid + 1) xs). key y \<le> key pivot"
      proof
        fix y assume "y \<in> set (take (?mid + 1) xs)"
        then obtain i where i: "i < length (take (?mid + 1) xs)" "y = take (?mid + 1) xs ! i"
          by (metis in_set_conv_nth)
        then have "i \<le> ?mid" "y = xs ! i" by simp_all
        moreover have "key (xs ! i) \<le> key (xs ! ?mid)"
          using "1.prems"(1) \<open>i \<le> ?mid\<close> mid
          by (simp add: sorted_iff_nth_mono)
        ultimately show "key y \<le> key pivot" using le by simp
      qed
      have f1: "filter (\<lambda>y. key y \<le> key pivot) (take (?mid + 1) xs) = take (?mid + 1) xs"
        using below by (simp add: filter_id_conv)
      have f2: "filter (\<lambda>y. key pivot < key y) (take (?mid + 1) xs) = []"
        using below by (auto simp: filter_empty_conv)
      have "binaryInsert cmp pivot xs
          = take (?mid + 1) xs @ binaryInsert cmp pivot (drop (?mid + 1) xs)"
        using False ge by (simp add: binaryInsert.simps [of cmp pivot xs] Let_def)
      also have "\<dots> = take (?mid + 1) xs @
          (filter (\<lambda>y. key y \<le> key pivot) (drop (?mid + 1) xs) @ [pivot] @
           filter (\<lambda>y. key pivot < key y) (drop (?mid + 1) xs))"
        using "1.IH"(2) [OF False refl ge st(4) ag(2)] by simp
      also have "\<dots> = filter (\<lambda>y. key y \<le> key pivot) (take (?mid + 1) xs @ drop (?mid + 1) xs)
          @ [pivot] @
          filter (\<lambda>y. key pivot < key y) (take (?mid + 1) xs @ drop (?mid + 1) xs)"
        unfolding filter_append f1 f2 by simp
      finally show ?thesis by simp
    qed
  qed
qed


lemma stable_insert_sorted:
  fixes key :: "'a \<Rightarrow> int"
  assumes "sorted (map key xs)"
  shows "sorted (map key (filter (\<lambda>y. key y \<le> key p) xs @ [p] @ filter (\<lambda>y. key p < key y) xs))"
proof -
  have "sorted (map key (filter (\<lambda>y. key y \<le> key p) xs))"
    "sorted (map key (filter (\<lambda>y. key p < key y) xs))"
    using assms by (simp_all add: sorted_map sorted_wrt_filter)
  then show ?thesis by (auto simp: sorted_append)
qed

lemma stable_insert_filter:
  fixes key :: "'a \<Rightarrow> int"
  shows "filter (\<lambda>x. key x = k)
           (filter (\<lambda>y. key y \<le> key p) xs @ [p] @ filter (\<lambda>y. key p < key y) xs)
       = filter (\<lambda>x. key x = k) (xs @ [p])"
proof (cases "k \<le> key p")
  case True
  have "filter (\<lambda>x. key x = k) (filter (\<lambda>y. key y \<le> key p) xs) = filter (\<lambda>x. key x = k) xs"
    unfolding filter_filter using True by (intro filter_cong) auto
  moreover have "filter (\<lambda>x. key x = k) (filter (\<lambda>y. key p < key y) xs) = []"
    unfolding filter_filter using True by (auto simp: filter_empty_conv)
  ultimately show ?thesis by simp
next
  case False
  have "filter (\<lambda>x. key x = k) (filter (\<lambda>y. key y \<le> key p) xs) = []"
    unfolding filter_filter using False by (auto simp: filter_empty_conv)
  moreover have "filter (\<lambda>x. key x = k) (filter (\<lambda>y. key p < key y) xs)
      = filter (\<lambda>x. key x = k) xs"
    unfolding filter_filter using False by (intro filter_cong) auto
  ultimately show ?thesis using False by simp
qed

lemma sort_key_unique:
  fixes key :: "'a \<Rightarrow> int"
  assumes "mset ys = mset xs" and "sorted (map key ys)"
    and "\<And>k. filter (\<lambda>x. key x = k) ys = filter (\<lambda>x. key x = k) xs"
  shows "sort_key key xs = ys"
proof (rule properties_for_sort_key [OF assms(1) _ assms(2)])
  fix k
  have "filter (\<lambda>x. key k = key x) ys = filter (\<lambda>x. key x = key k) ys"
    by (rule filter_cong) auto
  also have "\<dots> = filter (\<lambda>x. key x = key k) xs" by (rule assms(3))
  also have "\<dots> = filter (\<lambda>x. key k = key x) xs"
    by (rule filter_cong) auto
  finally show "filter (\<lambda>x. key k = key x) ys = filter (\<lambda>x. key k = key x) xs" .
qed

lemma binaryInsertionSort_sort_key:
  fixes key :: "'a \<Rightarrow> int"
  assumes "sorted (map key run)"
    and "\<forall>x\<in>set run \<union> set rest. \<forall>y\<in>set run \<union> set rest.
           (compareResult (cmp x y) < 0) = (key x < key y)"
  shows "binaryInsertionSort cmp run rest = sort_key key (run @ rest)"
  using assms
proof (induction rest arbitrary: run)
  case Nil
  have "sort_key key run = run"
    by (rule sort_key_unique) (simp_all add: Nil.prems(1))
  then show ?case by simp
next
  case (Cons p rest)
  let ?run' = "filter (\<lambda>y. key y \<le> key p) run @ [p] @ filter (\<lambda>y. key p < key y) run"
  have bi: "binaryInsert cmp p run = ?run'"
    by (rule binaryInsert_sorted [OF Cons.prems(1)]) (use Cons.prems(2) in auto)
  have s': "sorted (map key ?run')"
    by (rule stable_insert_sorted [OF Cons.prems(1)])
  have set': "set ?run' = insert p (set run)" by auto
  have ag': "\<forall>x\<in>set ?run' \<union> set rest. \<forall>y\<in>set ?run' \<union> set rest.
           (compareResult (cmp x y) < 0) = (key x < key y)"
    unfolding set' using Cons.prems(2) by auto
  have "binaryInsertionSort cmp run (p # rest) = binaryInsertionSort cmp ?run' rest"
    by (simp add: bi)
  also have "\<dots> = sort_key key (?run' @ rest)"
    by (rule Cons.IH [OF s' ag'])
  also have "\<dots> = sort_key key (run @ p # rest)"
  proof (rule sort_key_unique)
    show "mset (sort_key key (run @ p # rest)) = mset (?run' @ rest)"
    proof -
      have "mset (filter (\<lambda>y. key y \<le> key p) run) + mset (filter (\<lambda>y. key p < key y) run)
          = mset run"
        by (induction run) auto
      then show ?thesis by simp
    qed
    show "sorted (map key (sort_key key (run @ p # rest)))" by simp
    fix k
    have "filter (\<lambda>x. key x = k) (sort_key key (run @ p # rest))
        = filter (\<lambda>x. key x = k) (run @ p # rest)"
      by (rule sort_key_stable)
    also have "\<dots> = filter (\<lambda>x. key x = k) (run @ [p]) @ filter (\<lambda>x. key x = k) rest"
      by simp
    also have "\<dots> = filter (\<lambda>x. key x = k) ?run' @ filter (\<lambda>x. key x = k) rest"
      by (simp only: stable_insert_filter)
    finally show "filter (\<lambda>x. key x = k) (sort_key key (run @ p # rest))
        = filter (\<lambda>x. key x = k) (?run' @ rest)"
      by simp
  qed
  finally show ?case .
qed


lemma ascending_run_sorted:
  fixes key :: "'a \<Rightarrow> int"
  assumes "\<forall>x\<in>insert prev (set cs). \<forall>y\<in>insert prev (set cs).
             (compareResult (cmp x y) < 0) = (key x < key y)"
  shows "sorted (map key (prev # take (runTail cmp False prev cs) cs))"
  using assms
proof (induction cs arbitrary: prev)
  case Nil
  then show ?case by simp
next
  case (Cons c cs)
  show ?case
  proof (cases "0 \<le> compareResult (cmp c prev)")
    case True
    then have "key prev \<le> key c" using Cons.prems by force
    moreover have "sorted (map key (c # take (runTail cmp False c cs) cs))"
      by (rule Cons.IH) (use Cons.prems in auto)
    ultimately show ?thesis using True by force
  next
    case False
    then show ?thesis by simp
  qed
qed

lemma descending_run_sorted:
  fixes key :: "'a \<Rightarrow> int"
  assumes "\<forall>x\<in>insert prev (set cs). \<forall>y\<in>insert prev (set cs).
             (compareResult (cmp x y) < 0) = (key x < key y)"
  shows "sorted_wrt (\<lambda>a b. b < a) (map key (prev # take (runTail cmp True prev cs) cs))"
  using assms
proof (induction cs arbitrary: prev)
  case Nil
  then show ?case by simp
next
  case (Cons c cs)
  show ?case
  proof (cases "compareResult (cmp c prev) < 0")
    case True
    then have lt: "key c < key prev" using Cons.prems by force
    have ih: "sorted_wrt (\<lambda>a b. b < a) (map key (c # take (runTail cmp True c cs) cs))"
      by (rule Cons.IH) (use Cons.prems in auto)
    have "\<forall>z\<in>set (map key (take (runTail cmp True c cs) cs)). z < key prev"
      using ih lt by auto
    with ih lt True show ?thesis by simp
  next
    case False
    then show ?thesis by simp
  qed
qed

lemma filter_key_rev:
  fixes key :: "'a \<Rightarrow> int"
  assumes "distinct (map key d)"
  shows "filter (\<lambda>x. key x = k) (rev d) = filter (\<lambda>x. key x = k) d"
proof -
  have "length (filter (\<lambda>x. key x = k) d) \<le> 1"
    using assms
  proof (induction d)
    case Nil
    then show ?case by simp
  next
    case (Cons x d)
    show ?case
    proof (cases "key x = k")
      case True
      have notin: "key x \<notin> key ` set d" using Cons.prems by simp
      have "\<forall>y\<in>set d. key y \<noteq> k"
      proof
        fix y assume "y \<in> set d"
        then have "key y \<in> key ` set d" by simp
        with notin True show "key y \<noteq> k" by auto
      qed
      then have "filter (\<lambda>y. key y = k) d = []"
        by (simp add: filter_empty_conv)
      with True show ?thesis by simp
    next
      case False
      with Cons show ?thesis by simp
    qed
  qed
  then have "rev (filter (\<lambda>x. key x = k) d) = filter (\<lambda>x. key x = k) d"
    by (cases "filter (\<lambda>x. key x = k) d") (auto simp: le_Suc_eq)
  then show ?thesis by (simp add: rev_filter)
qed

lemma sort_key_rev_distinct:
  fixes key :: "'a \<Rightarrow> int"
  assumes "distinct (map key d)"
  shows "sort_key key (rev d @ rest) = sort_key key (d @ rest)"
proof (rule sort_key_unique)
  show "mset (sort_key key (d @ rest)) = mset (rev d @ rest)" by simp
  show "sorted (map key (sort_key key (d @ rest)))" by simp
  fix k
  have "filter (\<lambda>x. key x = k) (sort_key key (d @ rest)) = filter (\<lambda>x. key x = k) (d @ rest)"
    by (rule sort_key_stable)
  also have "\<dots> = filter (\<lambda>x. key x = k) (rev d @ rest)"
    by (simp add: filter_key_rev [OF assms])
  finally show "filter (\<lambda>x. key x = k) (sort_key key (d @ rest))
      = filter (\<lambda>x. key x = k) (rev d @ rest)" .
qed

lemma arraySort_sort_key:
  fixes key :: "'a \<Rightarrow> int"
  assumes "\<forall>x\<in>set xs. \<forall>y\<in>set xs. (compareResult (cmp x y) < 0) = (key x < key y)"
  shows "arraySort cmp xs = sort_key key xs"
proof (cases xs)
  case Nil
  then show ?thesis by (simp add: arraySort_def)
next
  case (Cons a ys)
  show ?thesis
  proof (cases ys)
    case Nil
    with Cons show ?thesis by (simp add: arraySort_def)
  next
    case (Cons b rest)
    have xs: "xs = a # b # rest" using \<open>xs = a # ys\<close> Cons by simp
    define desc where "desc = (compareResult (cmp b a) < 0)"
    define k where "k = runTail cmp desc b rest"
    let ?run = "a # b # take k rest"
    let ?others = "drop k rest"
    have parts: "xs = ?run @ ?others" by (simp add: xs)
    have ag: "\<forall>x\<in>set ?run \<union> set ?others. \<forall>y\<in>set ?run \<union> set ?others.
        (compareResult (cmp x y) < 0) = (key x < key y)"
      using assms by (subst (asm) (1 2) parts) (simp only: set_append)
    have agb: "\<forall>x\<in>insert b (set rest). \<forall>y\<in>insert b (set rest).
        (compareResult (cmp x y) < 0) = (key x < key y)"
      using assms by (simp add: xs)
    have eq: "arraySort cmp xs
        = binaryInsertionSort cmp (if desc then rev ?run else ?run) ?others"
      by (simp add: arraySort_def xs Let_def desc_def k_def)
    show ?thesis
    proof (cases desc)
      case False
      then have "\<not> key b < key a" using assms by (simp add: desc_def xs)
      moreover have "sorted (map key (b # take k rest))"
        using ascending_run_sorted [OF agb] False by (simp add: k_def)
      ultimately have srt: "sorted (map key ?run)" by force
      have "binaryInsertionSort cmp ?run ?others = sort_key key (?run @ ?others)"
        by (rule binaryInsertionSort_sort_key [OF srt ag])
      with eq False parts show ?thesis by simp
    next
      case True
      then have lt: "key b < key a" using assms by (simp add: desc_def xs)
      have d1: "sorted_wrt (\<lambda>a b. b < a) (map key (b # take k rest))"
        using descending_run_sorted [OF agb] True by (simp add: k_def)
      then have "\<forall>z\<in>set (map key (take k rest)). z < key a" using lt by auto
      with d1 lt have d2: "sorted_wrt (\<lambda>a b. b < a) (map key ?run)" by simp
      then have "sorted_wrt (<) (rev (map key ?run))"
        by (simp only: sorted_wrt_rev)
      then have sd: "sorted (rev (map key ?run)) \<and> distinct (rev (map key ?run))"
        by (simp only: strict_sorted_iff)
      from sd have srt: "sorted (map key (rev ?run))"
        by (simp only: rev_map)
      from sd have dst: "distinct (map key ?run)"
        by (simp only: distinct_rev)
      have ag': "\<forall>x\<in>set (rev ?run) \<union> set ?others. \<forall>y\<in>set (rev ?run) \<union> set ?others.
          (compareResult (cmp x y) < 0) = (key x < key y)"
        using ag by (simp only: set_rev)
      have "binaryInsertionSort cmp (rev ?run) ?others = sort_key key (rev ?run @ ?others)"
        by (rule binaryInsertionSort_sort_key [OF srt ag'])
      also have "\<dots> = sort_key key (?run @ ?others)"
        by (rule sort_key_rev_distinct [OF dst])
      finally show ?thesis using eq True parts by simp
    qed
  qed
qed

lemma sortPosts_all_resolved:
  assumes "\<forall>p\<in>set posts. \<exists>t. parseTimestamp parse now (timestamp p) = Some (Date t)"
  shows "sortPosts parse now posts = sort_key (timeKey parse now) posts"
  unfolding sortPosts_def
proof (rule arraySort_sort_key, intro ballI)
  fix a b assume "a \<in> set posts" "b \<in> set posts"
  then obtain ta tb where "parseTimestamp parse now (timestamp a) = Some (Date ta)"
    "parseTimestamp parse now (timestamp b) = Some (Date tb)"
    using assms by blast
  then show "(compareResult (comparePosts parse now a b) < 0)
      = (timeKey parse now a < timeKey parse now b)"
    by (simp add: comparePosts_def compareResult_def timeKey_def resolvedTime_def)
qed

lemma sortPosts_no_timestamp:
  assumes "\<forall>p\<in>set posts. timestamp p = []"
  shows "sortPosts parse now posts = sort_key (\<lambda>p. int (scrollPosition p)) posts"
  unfolding sortPosts_def
proof (rule arraySort_sort_key, intro ballI)
  fix a b assume "a \<in> set posts" "b \<in> set posts"
  then have "timestamp a = []" "timestamp b = []" using assms by auto
  then show "(compareResult (comparePosts parse now a b) < 0)
      = (int (scrollPosition a) < int (scrollPosition b))"
    by (simp add: comparePosts_def compareResult_def parseTimestamp_def)
qed

lemma sorted_by_key:
  fixes key :: "'a \<Rightarrow> int"
  shows "sorted_wrt (\<lambda>a b. key a \<le> key b) (sort_key key xs)"
  using sorted_sort_key [of key xs] by (simp add: sorted_map)

section \<open>Messages sent during a run\<close>

lemma sent_sendMessage: "sent (sendMessage m s) = sent s @ [m]"
  by (simp add: sendMessage_def)

lemma sent_sendProgressUpdate:
  "\<exists>m. sent (sendProgressUpdate msg s) = sent s @ [m] \<and> isProgress m"
  by (simp add: sendProgressUpdate_def sendMessage_def)

lemma sent_stopScraping:
  "\<exists>m. sent (stopScraping s) = sent s @ [m] \<and> isProgress m"
  by (simp add: stopScraping_def sendProgressUpdate_def sendMessage_def)

lemma more_progress:
  assumes "\<exists>ms. sent s1 = sent s @ ms \<and> list_all isProgress ms"
    and "\<exists>ms. sent s2 = sent s1 @ ms \<and> list_all isProgress ms"
  shows "\<exists>ms. sent s2 = sent s @ ms \<and> list_all isProgress ms"
proof -
  from assms obtain ms1 ms2 where "sent s1 = sent s @ ms1" "list_all isProgress ms1"
    "sent s2 = sent s1 @ ms2" "list_all isProgress ms2" by blast
  then have "sent s2 = sent s @ (ms1 @ ms2) \<and> list_all isProgress (ms1 @ ms2)" by simp
  then show ?thesis by blast
qed

lemma one_progress:
  "\<exists>m. sent s' = sent s @ [m] \<and> isProgress m \<Longrightarrow>
   \<exists>ms. sent s' = sent s @ ms \<and> list_all isProgress ms"
  by (elim exE conjE, rule_tac x="[m]" in exI) simp

lemma no_progress: "sent s' = sent s \<Longrightarrow> \<exists>ms. sent s' = sent s @ ms \<and> list_all isProgress ms"
  by simp

lemma sent_scrapeCurrentPosts:
  "scrapeCurrentPosts c nodes s = Returned s' \<Longrightarrow>
   \<exists>ms. sent s' = sent s @ ms \<and> list_all isProgress ms"
  by (auto simp: scrapeCurrentPosts_def sendProgressUpdate_def sendMessage_def split: if_splits)

lemma sent_scrapeCurrentPosts_Threw:
  "scrapeCurrentPosts c nodes s = Threw err s' \<Longrightarrow> s' = s"
  by (auto simp: scrapeCurrentPosts_def split: if_splits)

lemma sent_performScroll:
  "performScroll e s = (ok, s') \<Longrightarrow> \<exists>ms. sent s' = sent s @ ms \<and> list_all isProgress ms"
  by (auto simp: performScroll_def Let_def stopScraping_def sendProgressUpdate_def sendMessage_def
      split: if_splits)

lemma sent_waitForNewContent:
  "\<exists>ms. sent (waitForNewContent e s) = sent s @ ms \<and> list_all isProgress ms"
  by (auto simp: waitForNewContent_def Let_def stopScraping_def sendProgressUpdate_def sendMessage_def)

lemma sent_delay:
  "\<exists>ms. sent (if b then stopScraping s else s) = sent s @ ms \<and> list_all isProgress ms"
  by (auto simp: stopScraping_def sendProgressUpdate_def sendMessage_def)

lemma sent_scrollPass:
  "\<exists>ms. sent (stepState (scrollPass e v s)) = sent s @ ms \<and> list_all isProgress ms"
proof -
  obtain ok s1 where ps: "performScroll e s = (ok, s1)" by (cases "performScroll e s")
  have g1: "\<exists>ms. sent s1 = sent s @ ms \<and> list_all isProgress ms"
    by (rule sent_performScroll [OF ps])
  define s2 where "s2 = waitForNewContent e s1"
  have g2: "\<exists>ms. sent s2 = sent s @ ms \<and> list_all isProgress ms"
    unfolding s2_def by (rule more_progress [OF g1 sent_waitForNewContent])
  show ?thesis
  proof (cases "scrapeCurrentPosts (columnShown e) (view e) s2")
    case (Threw err s3)
    then have "s3 = s2" by (rule sent_scrapeCurrentPosts_Threw)
    with Threw ps g1 g2 show ?thesis
      by (cases ok) (auto simp: scrollPass_def Let_def s2_def [symmetric])
  next
    case (Returned s3)
    have g3: "\<exists>ms. sent s3 = sent s @ ms \<and> list_all isProgress ms"
      by (rule more_progress [OF g2 sent_scrapeCurrentPosts [OF Returned]])
    have g4: "\<exists>ms. sent (if stopInDelay e then stopScraping s3 else s3) = sent s @ ms
        \<and> list_all isProgress ms"
      by (rule more_progress [OF g3 sent_delay])
    from Returned ps g1 g2 g3 g4 show ?thesis
      by (cases ok) (auto simp: scrollPass_def Let_def s2_def [symmetric] split: option.splits)
  qed
qed


lemma isProgress_unique: "isProgress m \<Longrightarrow> uniqueKeysMessage m"
  by (cases m) simp_all

lemma unique_grows:
  assumes "\<forall>m\<in>set (sent s). uniqueKeysMessage m"
    and "\<exists>ms. sent s' = sent s @ ms \<and> list_all isProgress ms"
  shows "\<forall>m\<in>set (sent s'). uniqueKeysMessage m"
  using assms by (auto simp: list_all_iff dest: isProgress_unique)

lemma sent_scrollLoop:
  "scrollLoop ps v s = Some out \<Longrightarrow>
   \<exists>ms. sent (outcomeState out) = sent s @ ms \<and> list_all isProgress ms"
proof (induction ps arbitrary: v s)
  case Nil
  then show ?case by (auto split: if_splits)
next
  case (Cons e rest)
  have step: "\<exists>ms. sent (stepState (scrollPass e v s)) = sent s @ ms \<and> list_all isProgress ms"
    by (rule sent_scrollPass)
  show ?case
  proof (cases "isScrapingActive s")
    case False
    with Cons.prems show ?thesis by auto
  next
    case True
    show ?thesis
    proof (cases "scrollPass e v s")
      case (Break s')
      with True Cons.prems step show ?thesis by auto
    next
      case (Continue v' s')
      with True Cons.prems have "scrollLoop rest v' s' = Some out" by simp
      then have "\<exists>ms. sent (outcomeState out) = sent s' @ ms \<and> list_all isProgress ms"
        by (rule Cons.IH)
      moreover from step Continue
      have "\<exists>ms. sent s' = sent s @ ms \<and> list_all isProgress ms" by simp
      ultimately show ?thesis by (rule more_progress [rotated])
    next
      case (Raise err s')
      with True Cons.prems step show ?thesis by auto
    qed
  qed
qed

lemma unique_completeScraping:
  assumes "\<forall>m\<in>set (sent s). uniqueKeysMessage m"
  shows "\<forall>m\<in>set (sent (outcomeState (completeScraping parse now s))). uniqueKeysMessage m"
  using assms
  by (auto simp: completeScraping_def Let_def sendMessage_def finalPosts_unique_keys
      split: sum.splits)

lemma unique_startFailed:
  assumes "\<forall>m\<in>set (sent s). uniqueKeysMessage m"
  shows "\<forall>m\<in>set (sent (outcomeState (startFailed err s))). uniqueKeysMessage m"
  using assms by (auto simp: startFailed_def sendMessage_def)

lemma unique_startAutoScroll:
  assumes "\<forall>m\<in>set (sent s). uniqueKeysMessage m"
    and "startAutoScroll parse now ps s = Some out"
  shows "\<forall>m\<in>set (sent (outcomeState out)). uniqueKeysMessage m"
proof (cases "scrollLoop ps \<lparr>consecutiveEmptyScrolls = 0, noNewPostsStartTime = None\<rparr> s")
  case None
  with assms(2) show ?thesis by (simp add: startAutoScroll_def)
next
  case (Some lo)
  have u: "\<forall>m\<in>set (sent (outcomeState lo)). uniqueKeysMessage m"
    by (rule unique_grows [OF assms(1) sent_scrollLoop [OF Some]])
  show ?thesis
  proof (cases lo)
    case (Returned s')
    with Some assms(2) have "out = completeScraping parse now s'"
      by (simp add: startAutoScroll_def)
    with u Returned show ?thesis by (simp add: unique_completeScraping)
  next
    case (Threw err s')
    with Some assms(2) u show ?thesis by (auto simp: startAutoScroll_def)
  qed
qed

lemma unique_startScraping:
  assumes "\<forall>m\<in>set (sent s). uniqueKeysMessage m"
    and "startScraping parse r s = Some out"
  shows "\<forall>m\<in>set (sent (outcomeState out)). uniqueKeysMessage m"
proof (cases "isXProfilePage (pageAddress r)")
  case False
  with assms show ?thesis
    by (auto simp: startScraping_def startFailed_def sendMessage_def)
next
  case True
  define s2 where "s2 = sendProgressUpdate ''Initializing scraper...''
    (sendMessage ScrapingStarted
      (s\<lparr>maxPosts := requestedMaxPosts r, isScrapingActive := True,
          scrapedPosts := [], scrollCount := 0, noNewContentCount := 0\<rparr>))"
  have u2: "\<forall>m\<in>set (sent s2). uniqueKeysMessage m"
    using assms(1) by (auto simp: s2_def sendProgressUpdate_def sendMessage_def)
  show ?thesis
  proof (cases "scrapeCurrentPosts (firstColumnShown r) (firstView r) s2")
    case (Threw err s3)
    then have "s3 = s2" by (rule sent_scrapeCurrentPosts_Threw)
    with Threw True assms(2) have "out = startFailed err s2"
      by (simp add: startScraping_def Let_def s2_def)
    then show ?thesis using unique_startFailed [OF u2] by simp
  next
    case (Returned s3)
    have u3: "\<forall>m\<in>set (sent s3). uniqueKeysMessage m"
      by (rule unique_grows [OF u2 sent_scrapeCurrentPosts [OF Returned]])
    show ?thesis
    proof (cases "startAutoScroll parse (completionClock r) (passes r) s3")
      case None
      with Returned True assms(2) show ?thesis
        by (simp add: startScraping_def Let_def s2_def)
    next
      case (Some lo)
      have u4: "\<forall>m\<in>set (sent (outcomeState lo)). uniqueKeysMessage m"
        by (rule unique_startAutoScroll [OF u3 Some])
      show ?thesis
      proof (cases lo)
        case (Returned s4)
        with Some \<open>scrapeCurrentPosts (firstColumnShown r) (firstView r) s2 = Returned s3\<close>
          True assms(2) u4
        show ?thesis by (auto simp: startScraping_def Let_def s2_def)
      next
        case (Threw err s4)
        with Some \<open>scrapeCurrentPosts (firstColumnShown r) (firstView r) s2 = Returned s3\<close>
          True assms(2)
        have "out = startFailed err s4" by (auto simp: startScraping_def Let_def s2_def)
        moreover from u4 Threw have "\<forall>m\<in>set (sent s4). uniqueKeysMessage m" by simp
        ultimately show ?thesis using unique_startFailed by simp
      qed
    qed
  qed
qed

lemma unique_handleStart:
  assumes "\<forall>m\<in>set (sent s). uniqueKeysMessage m"
    and "handleStart parse r s = Some s'"
  shows "\<forall>m\<in>set (sent s'). uniqueKeysMessage m"
proof (cases "startScraping parse r s")
  case None
  with assms(2) show ?thesis by (simp add: handleStart_def)
next
  case (Some out)
  have "\<forall>m\<in>set (sent (outcomeState out)). uniqueKeysMessage m"
    by (rule unique_startScraping [OF assms(1) Some])
  with Some assms(2) show ?thesis
    by (cases out) (auto simp: handleStart_def sendMessage_def)
qed

lemma unique_stopTimerFires:
  assumes "\<forall>m\<in>set (sent s). uniqueKeysMessage m"
  shows "\<forall>m\<in>set (sent (stopTimerFires parse now s)). uniqueKeysMessage m"
proof -
  define s1 where "s1 = s\<lparr>stopTimers := stopTimers s - 1\<rparr>"
  have u1: "\<forall>m\<in>set (sent s1). uniqueKeysMessage m" using assms by (simp add: s1_def)
  have "stopTimerFires parse now s
      = (if \<not> isScrapingActive s1 then outcomeState (completeScraping parse now s1) else s1)"
    by (cases "completeScraping parse now s1") (simp_all add: stopTimerFires_def Let_def s1_def)
  then show ?thesis using u1 unique_completeScraping [OF u1] by simp
qed

lemma unique_fireStopTimers:
  assumes "\<forall>m\<in>set (sent s). uniqueKeysMessage m"
  shows "\<forall>m\<in>set (sent (fireStopTimers n parse now s)). uniqueKeysMessage m"
  using assms
proof (induction n arbitrary: s)
  case 0
  then show ?case by simp
next
  case (Suc n)
  show ?case
    unfolding fireStopTimers.simps
    by (rule Suc.IH, rule unique_stopTimerFires, rule Suc.prems)
qed

section \<open>The output of a completed run\<close>

text \<open>
  C1. In every run that returns, the posts of every completion message have pairwise
  distinct ids and pairwise distinct content hashes.
\<close>

theorem run_output_unique_keys:
  assumes "runScraper parse r = Some s"
    and "ScrapingComplete posts n stats \<in> set (sent s)"
  shows "distinct (map post_id posts) \<and> distinct (map createContentHash posts)"
proof -
  have u0: "\<forall>m\<in>set (sent newScraper). uniqueKeysMessage m" by (simp add: newScraper_def)
  from assms(1) obtain s1 where h: "handleStart parse r newScraper = Some s1"
    and s: "s = fireStopTimers (stopTimers s1) parse (timerClock r) s1"
    by (auto simp: runScraper_def split: option.splits)
  have "\<forall>m\<in>set (sent s1). uniqueKeysMessage m" by (rule unique_handleStart [OF u0 h])
  then have "\<forall>m\<in>set (sent s). uniqueKeysMessage m"
    unfolding s by (rule unique_fireStopTimers)
  with assms(2) have "uniqueKeysMessage (ScrapingComplete posts n stats)" by blast
  then show ?thesis by simp
qed

theorem run_output_unique_keys_witness:
  "runScraper unrecognised twoPostRun = Some twoPostEnd \<and>
   ScrapingComplete twoPostOutput 0 twoPostStats \<in> set (sent twoPostEnd) \<and>
   distinct (map post_id twoPostOutput) \<and>
   distinct (map createContentHash twoPostOutput)"
proof -
  have run: "runScraper unrecognised twoPostRun = Some twoPostEnd"
    by code_simp
  have mem: "ScrapingComplete twoPostOutput 0 twoPostStats \<in> set (sent twoPostEnd)"
    by (simp add: twoPostEnd_def)
  from run_output_unique_keys [OF run mem] run mem show ?thesis by simp
qed

section \<open>The final ordering\<close>

text \<open>
  What \<open>sortAndOrderPosts\<close> does on every input and on the inputs whose comparator
  is consistent: it permutes the posts and numbers them 1 to N along the sorted order;
  when every timestamp resolves to a valid date the order is by resolved time, newest
  first, and posts of equal time keep their original order; when no post has a timestamp
  the order is by ascending \<open>scrollPosition\<close>, and posts of equal
  \<open>scrollPosition\<close> keep their original order.
\<close>

lemma sortAndOrderPosts_consistent:
  "length (sortAndOrderPosts parse now posts) = length posts \<and>
   (\<forall>i<length posts.
      sortAndOrderPosts parse now posts ! i
        = (sortPosts parse now posts ! i)\<lparr>finalOrder := Some (i + 1)\<rparr>) \<and>
   mset (sortPosts parse now posts) = mset posts \<and>
   ((\<forall>p\<in>set posts. \<exists>t. parseTimestamp parse now (timestamp p) = Some (Date t)) \<longrightarrow>
      sorted_wrt (\<lambda>a b. \<forall>ta tb. resolvedTime parse now a = Some ta \<longrightarrow>
                    resolvedTime parse now b = Some tb \<longrightarrow> tb \<le> ta)
        (sortPosts parse now posts) \<and>
      (\<forall>t. filter (\<lambda>p. resolvedTime parse now p = Some t) (sortPosts parse now posts)
           = filter (\<lambda>p. resolvedTime parse now p = Some t) posts)) \<and>
   ((\<forall>p\<in>set posts. timestamp p = []) \<longrightarrow>
      sorted_wrt (\<lambda>a b. scrollPosition a \<le> scrollPosition b) (sortPosts parse now posts) \<and>
      (\<forall>k. filter (\<lambda>p. scrollPosition p = k) (sortPosts parse now posts)
           = filter (\<lambda>p. scrollPosition p = k) posts))"
proof (intro conjI impI allI)
  have len: "length (sortPosts parse now posts) = length posts"
    using mset_arraySort [of "comparePosts parse now" posts]
    by (metis size_mset sortPosts_def)
  show "length (sortAndOrderPosts parse now posts) = length posts"
    by (simp add: sortAndOrderPosts_def length_assignFinalOrder len)
  show "mset (sortPosts parse now posts) = mset posts"
    by (simp add: sortPosts_def mset_arraySort)
  {
    fix i assume "i < length posts"
    then show "sortAndOrderPosts parse now posts ! i
        = (sortPosts parse now posts ! i)\<lparr>finalOrder := Some (i + 1)\<rparr>"
      by (simp add: sortAndOrderPosts_def nth_assignFinalOrder len)
  }
  {
    assume res: "\<forall>p\<in>set posts. \<exists>t. parseTimestamp parse now (timestamp p) = Some (Date t)"
    have eq: "sortPosts parse now posts = sort_key (timeKey parse now) posts"
      by (rule sortPosts_all_resolved [OF res])
    have "sorted_wrt (\<lambda>a b. timeKey parse now a \<le> timeKey parse now b)
            (sort_key (timeKey parse now) posts)"
      by (rule sorted_by_key)
    then show "sorted_wrt (\<lambda>a b. \<forall>ta tb. resolvedTime parse now a = Some ta \<longrightarrow>
                    resolvedTime parse now b = Some tb \<longrightarrow> tb \<le> ta)
        (sortPosts parse now posts)"
      unfolding eq by (rule sorted_wrt_mono_rel [rotated]) (auto simp: timeKey_def)
    fix t
    have key: "\<And>p. p \<in> set posts \<Longrightarrow>
        (resolvedTime parse now p = Some t) = (timeKey parse now p = - t)"
      using res by (auto simp: timeKey_def resolvedTime_def)
    have "filter (\<lambda>p. resolvedTime parse now p = Some t) (sort_key (timeKey parse now) posts)
        = filter (\<lambda>p. timeKey parse now p = - t) (sort_key (timeKey parse now) posts)"
      by (rule filter_cong) (simp_all add: key)
    also have "\<dots> = filter (\<lambda>p. timeKey parse now p = - t) posts"
      by (rule sort_key_stable)
    also have "\<dots> = filter (\<lambda>p. resolvedTime parse now p = Some t) posts"
      by (rule filter_cong) (simp_all add: key)
    finally show "filter (\<lambda>p. resolvedTime parse now p = Some t) (sortPosts parse now posts)
        = filter (\<lambda>p. resolvedTime parse now p = Some t) posts"
      unfolding eq .
  }
  {
    assume emp: "\<forall>p\<in>set posts. timestamp p = []"
    have eq: "sortPosts parse now posts = sort_key (\<lambda>p. int (scrollPosition p)) posts"
      by (rule sortPosts_no_timestamp [OF emp])
    have "sorted_wrt (\<lambda>a b. int (scrollPosition a) \<le> int (scrollPosition b))
            (sort_key (\<lambda>p. int (scrollPosition p)) posts)"
      by (rule sorted_by_key)
    then show "sorted_wrt (\<lambda>a b. scrollPosition a \<le> scrollPosition b)
        (sortPosts parse now posts)"
      unfolding eq by simp
    fix k
    have "filter (\<lambda>p. int (scrollPosition p) = int k)
            (sort_key (\<lambda>p. int (scrollPosition p)) posts)
        = filter (\<lambda>p. int (scrollPosition p) = int k) posts"
      by (rule sort_key_stable)
    then show "filter (\<lambda>p. scrollPosition p = k) (sortPosts parse now posts)
        = filter (\<lambda>p. scrollPosition p = k) posts"
      unfolding eq by simp
  }
qed

text \<open>
  C6. The three posts of the first view, one of them without a timestamp: the list
  stays as it is, so the post resolved to the later time comes after the post resolved
  to the earlier time, against the comments "newest first" of \<open>completeScraping\<close> and
  \<open>sortAndOrderPosts\<close>. The comparator mixes two keys and is not transitive here. The
  arrangement newer, untimed, older has the specified order; the output has not.
\<close>

theorem sortAndOrderPosts_newer_after_older:
  "map post_id (sortAndOrderPosts unrecognised 1700000000000 [olderPost, untimedPost, newerPost])
     = [''101'', ''102'', ''103''] \<and>
   post_id olderPost = ''101'' \<and> post_id newerPost = ''103'' \<and>
   resolvedTime unrecognised 1700000000000 olderPost = Some 1699982000000 \<and>
   resolvedTime unrecognised 1700000000000 newerPost = Some 1699992800000 \<and>
   specifiedOrder unrecognised 1700000000000 [newerPost, untimedPost, olderPost] \<and>
   \<not> specifiedOrder unrecognised 1700000000000
       (sortAndOrderPosts unrecognised 1700000000000 [olderPost, untimedPost, newerPost])"
proof -
  have "map post_id
      (sortAndOrderPosts unrecognised 1700000000000 [olderPost, untimedPost, newerPost])
      = [''101'', ''102'', ''103'']"
    by code_simp
  moreover have "post_id olderPost = ''101''" "post_id newerPost = ''103''"
    by (simp_all add: olderPost_def newerPost_def examplePost_def)
  moreover have "resolvedTime unrecognised 1700000000000 olderPost = Some 1699982000000"
    by code_simp
  moreover have "resolvedTime unrecognised 1700000000000 newerPost = Some 1699992800000"
    by code_simp
  moreover have "specifiedOrder unrecognised 1700000000000 [newerPost, untimedPost, olderPost]"
    by code_simp
  moreover have "\<not> specifiedOrder unrecognised 1700000000000
      (sortAndOrderPosts unrecognised 1700000000000 [olderPost, untimedPost, newerPost])"
    by code_simp
  ultimately show ?thesis by simp
qed

section \<open>Admission in a pass\<close>

text \<open>
  The admission asked for by C2 is not the one of \<open>scrapeCurrentPosts\<close>. With the
  first sighting in the map, the second sighting is admitted although its content hash
  is the content hash of a post already there.
\<close>

theorem admit_same_content_hash:
  "admit [(''7001'', firstSighting)] secondSighting
     = [(''7001'', firstSighting), (''7002'', secondSighting)] \<and>
   createContentHash secondSighting = createContentHash firstSighting"
  by (simp add: admit_def admitted_def createContentHash_def firstSighting_def
      secondSighting_def examplePost_def)

text \<open>
  C2, amended. The admission of a pass changes the map exactly when the id of the post
  is not empty and not yet a key; the post is then appended under its id. Posts with the
  same id are admitted or rejected alike, whatever their text, timestamp and author.
\<close>

theorem admit_by_id_only:
  "(admit m p \<noteq> m) = (post_id p \<noteq> [] \<and> post_id p \<notin> fst ` set m) \<and>
   (admit m p \<noteq> m \<longrightarrow> admit m p = m @ [(post_id p, p)]) \<and>
   (post_id q = post_id p \<longrightarrow> (admit m q \<noteq> m) = (admit m p \<noteq> m))"
  by (simp add: admit_def admitted_def)

theorem admit_by_id_only_witness:
  "admit [(''7001'', firstSighting)] secondSighting \<noteq> [(''7001'', firstSighting)] \<and>
   admit [(''7001'', firstSighting)] secondSighting
     = [(''7001'', firstSighting)] @ [(post_id secondSighting, secondSighting)] \<and>
   post_id otherWords = post_id secondSighting \<and>
   (admit [(''7001'', firstSighting)] otherWords \<noteq> [(''7001'', firstSighting)])
     = (admit [(''7001'', firstSighting)] secondSighting \<noteq> [(''7001'', firstSighting)])"
proof -
  have ids: "post_id secondSighting = ''7002''" "post_id otherWords = ''7002''"
    by (simp_all add: secondSighting_def otherWords_def examplePost_def)
  have h1: "admit [(''7001'', firstSighting)] secondSighting \<noteq> [(''7001'', firstSighting)]"
    by (simp add: admit_def admitted_def ids)
  have h2: "post_id otherWords = post_id secondSighting"
    by (simp add: ids)
  from admit_by_id_only [of "[(''7001'', firstSighting)]" secondSighting otherWords] h1 h2
  show ?thesis by blast
qed

text \<open>
  C3. Two posts extracted in one pass: both are admitted, and both carry the
  \<open>order\<close> 1, since \<open>extractPostData\<close> reads the size of the map before any post
  of the pass is admitted.
\<close>

theorem scrapeCurrentPosts_same_order_in_one_pass:
  "scrapeCurrentPosts True
     [exampleNode ''101'' ''first post'' ''5h'', exampleNode ''102'' ''second post'' ''2h'']
     (newScraper\<lparr>isScrapingActive := True\<rparr>)
   = Returned
       (newScraper
          \<lparr>isScrapingActive := True,
           scrapedPosts :=
             [(''101'', examplePost ''101'' ''first post'' ''5h'' 1 0 None),
              (''102'', examplePost ''102'' ''second post'' ''2h'' 1 0 None)],
           sent := [UpdateProgress [] 2 0 True]\<rparr>)"
  by code_simp

section \<open>Engagement counts and timestamps at particular inputs\<close>

lemma parseCount_decimal_K: "parseCount ''1.2K'' = Num 1200"
  by code_simp

lemma parseCount_M: "parseCount ''3M'' = Num 3000000"
  by code_simp

lemma parseCount_plain: "parseCount ''47'' = Num 47"
  by code_simp

lemma parseCount_empty: "parseCount [] = Num 0"
  by (simp add: parseCount_def)

lemma parseCount_separator: "parseCount ''1,234'' = Num 1234"
  by code_simp

text \<open>
  C4. A text whose cleaned form holds a \<open>K\<close> but no leading digit: the result is
  NaN, not 0, in \<open>parseCount\<close> and in \<open>SelectorUtils.parseEngagementCount\<close>. The
  branches for \<open>K\<close> and \<open>M\<close> lack the \<open>|| 0\<close> of the integer branch.
\<close>

theorem parseCount_letter_only:
  "parseCount ''K'' = NaN \<and> parseEngagementCount ''K'' = NaN \<and>
   parseCount ''Like'' = NaN \<and> parseCount ''m'' = NaN"
proof -
  have "parseCount ''K'' = NaN" by code_simp
  moreover have "parseEngagementCount ''K'' = NaN" by code_simp
  moreover have "parseCount ''Like'' = NaN" by code_simp
  moreover have "parseCount ''m'' = NaN" by code_simp
  ultimately show ?thesis by simp
qed

lemma matchFrom_digits:
  "\<forall>c\<in>set ds. isDigit c \<Longrightarrow> matchFrom run (ds @ rest) = matchFrom (run @ ds) rest"
  by (induction ds arbitrary: run) simp_all

lemma parseTimestamp_relative:
  assumes "ds \<noteq> []" and "\<forall>c\<in>set ds. isDigit c" and "u \<in> set ''smhd''"
  shows "parseTimestamp parse now (ds @ [u])
    = Some (timeClip (now - digitsValue ds * unitMillis u))"
proof -
  have nd: "\<not> isDigit u" using assms(3) by (auto simp: isDigit_def)
  have "matchFrom [] (ds @ [u]) = matchFrom ([] @ ds) [u]"
    by (rule matchFrom_digits [OF assms(2)])
  also have "\<dots> = Some (ds, u)"
    using nd assms(1,3) by simp
  finally have m: "relativeMatch (ds @ [u]) = Some (ds, u)"
    by (simp add: relativeMatch_def)
  have "\<not> isDigit (CHR ''T'')" by (simp add: isDigit_def)
  then have "CHR ''T'' \<notin> set ds" using assms(2) by blast
  moreover have "u \<noteq> CHR ''T''" using assms(3) by auto
  ultimately have t: "CHR ''T'' \<notin> set (ds @ [u])" by simp
  have ne: "ds @ [u] \<noteq> []" by simp
  show ?thesis
    unfolding parseTimestamp_def using t ne m by simp
qed

lemma parseTimestamp_unparsed:
  assumes "ts \<noteq> []" and "\<not> (CHR ''T'' \<in> set ts \<and> CHR ''Z'' \<in> set ts)"
    and "relativeMatch ts = None" and "parse ts = None"
  shows "parseTimestamp parse now ts = Some InvalidDate"
  using assms by (simp add: parseTimestamp_def newDate_def)

text \<open>
  C7. A text that is neither relative nor a date: \<open>parseTimestamp\<close> returns an
  Invalid Date object, not \<open>null\<close>. The \<open>catch\<close> branch that returns \<open>null\<close> is
  never taken, because \<open>new Date(timestamp)\<close> does not throw.
\<close>

theorem parseTimestamp_invalid_date:
  "parseTimestamp unrecognised 1700000000000 ''yesterday'' = Some InvalidDate"
  by code_simp

text \<open>
  What follows from it: \<open>getDateRange\<close> keeps the Invalid Date, \<open>toISOString\<close>
  throws, and the run ends with error messages in place of a completion message.
\<close>

lemma run_with_unparsed_timestamp:
  "map_option sent
     (runScraper unrecognised
        (exampleRun (Some 1) True [exampleNode ''101'' ''first post'' ''yesterday'']
           [quietPass 1700000000000]))
   = Some [ScrapingStarted,
           UpdateProgress ''Initializing scraper...'' 0 0 True,
           UpdateProgress [] 1 0 True,
           LogError ''SCRAPING_INITIALIZATION'' ''Invalid time value'',
           ScrapingError ''Scraping failed: Invalid time value'',
           ScrapingError ''Invalid time value'']"
  by code_simp

section \<open>When the scroll loop stops\<close>


lemma extractPostsFromDOM_cong:
  assumes "scrapedPosts s' = scrapedPosts s" and "scrollCount s' = scrollCount s"
  shows "extractPostsFromDOM s' nodes = extractPostsFromDOM s nodes"
  by (simp only: extractPostsFromDOM_def extractPostData_def assms)




lemma scrollPass_early:
  "reachedMax s \<or> scrollFails e \<or> stopInScroll e \<or> stopInWait e \<Longrightarrow>
   isBreak (scrollPass e v s)"
  by (auto simp: scrollPass_def performScroll_def waitForNewContent_def stopScraping_def
      sendProgressUpdate_def sendMessage_def Let_def)

lemma scrollPass_scraped:
  assumes "isScrapingActive s" "columnShown e" "\<not> reachedMax s" "\<not> scrollFails e"
    "\<not> stopInScroll e" "\<not> stopInWait e"
  shows "\<exists>s3. scrapedPosts s3 = passPosts e s \<and> maxPosts s3 = maxPosts s \<and>
    isScrapingActive s3 \<and>
    scrollPass e v s =
      (if reachedMax s3 then Break s3
       else case trackSilence (dateNow e) (length (passPosts e s) - length (scrapedPosts s)) v of
              None \<Rightarrow> Break s3
            | Some v' \<Rightarrow>
                if 2 \<le> consecutiveEmptyScrolls v' then Break s3
                else if rateLimitSeen e then Break s3
                else Continue v' (if stopInDelay e then stopScraping s3 else s3))"
proof -
  define s1 where "s1 = s\<lparr>scrollCount := scrollCount s + 1\<rparr>"
  define s2 where "s2 = waitForNewContent e s1"
  have ex: "extractPostsFromDOM s2 (view e) = extractPostsFromDOM s1 (view e)"
    by (rule extractPostsFromDOM_cong)
       (simp_all add: s2_def s1_def waitForNewContent_def Let_def assms)
  define s3 where "s3 = sendProgressUpdate [] (s2\<lparr>scrapedPosts := passPosts e s\<rparr>)"
  have sp2: "scrapedPosts s2 = scrapedPosts s"
    using assms(6) by (simp add: s2_def waitForNewContent_def s1_def Let_def)
  have sc: "scrapeCurrentPosts (columnShown e) (view e) s2 = Returned s3"
    using assms(2)
    by (simp add: scrapeCurrentPosts_def s3_def passPosts_def ex sp2 s1_def)
  have p: "performScroll e s = (True, s1)"
    using assms by (simp add: performScroll_def s1_def)
  have a1: "isScrapingActive s1" using assms by (simp add: s1_def)
  have a2: "isScrapingActive s2"
    using assms a1 by (simp add: s2_def waitForNewContent_def Let_def)
  have a3: "isScrapingActive s3"
    using a2 by (simp add: s3_def sendProgressUpdate_def sendMessage_def)
  have f3: "scrapedPosts s3 = passPosts e s" "maxPosts s3 = maxPosts s"
    using assms(6)
    by (simp_all add: s3_def sendProgressUpdate_def sendMessage_def s2_def
        waitForNewContent_def s1_def Let_def)
  have "scrollPass e v s =
      (if reachedMax s3 then Break s3
       else case trackSilence (dateNow e) (length (passPosts e s) - length (scrapedPosts s)) v of
              None \<Rightarrow> Break s3
            | Some v' \<Rightarrow>
                if 2 \<le> consecutiveEmptyScrolls v' then Break s3
                else if rateLimitSeen e then Break s3
                else Continue v' (if stopInDelay e then stopScraping s3 else s3))"
    using assms(3) p a1 a2 a3 sc f3
    by (simp add: scrollPass_def Let_def s2_def [symmetric] split: option.splits)
  with f3 a3 show ?thesis by blast
qed

lemma scrollPass_no_raise:
  assumes "columnShown e"
  shows "scrollPass e v s \<noteq> Raise err s'"
proof -
  obtain ok s1 where ps: "performScroll e s = (ok, s1)" by (cases "performScroll e s")
  define s2 where "s2 = waitForNewContent e s1"
  obtain s3 where "scrapeCurrentPosts (columnShown e) (view e) s2 = Returned s3"
    using assms by (simp add: scrapeCurrentPosts_def)
  with ps show ?thesis
    by (cases ok) (auto simp: scrollPass_def Let_def s2_def [symmetric] split: option.splits)
qed






section \<open>Stop requests and the completion message\<close>

text \<open>
  C8. A stop request during the closing delay of the first iteration: the loop ends and
  \<open>completeScraping\<close> sends the completion message; then the timer of
  \<open>stopScraping\<close> fires and sends a second one.
\<close>

theorem stop_request_completes_twice:
  "map_option sent (runScraper unrecognised stoppedRun)
     = Some [ScrapingStarted,
             UpdateProgress ''Initializing scraper...'' 0 0 True,
             UpdateProgress [] 1 0 True,
             UpdateProgress [] 1 1 True,
             UpdateProgress ''Stopping scraper...'' 1 1 False,
             ScrapingComplete [examplePost ''101'' ''first post'' ''5h'' 1 0 (Some 1)] 1
               (onePostStats 1 1699982010000),
             ScrapingComplete [examplePost ''101'' ''first post'' ''5h'' 1 0 (Some 1)] 1
               (onePostStats 1 1699982010500)]"
  by code_simp

section \<open>A page without posts\<close>

text \<open>
  Without the primary column \<open>waitForElement\<close> rejects and the run ends with error
  messages: the wait for the page at the start is a hard failure.
\<close>

lemma run_without_primary_column:
  "map_option sent (runScraper unrecognised noColumnRun)
     = Some [ScrapingStarted,
             UpdateProgress ''Initializing scraper...'' 0 0 True,
             LogError ''SCRAPING_INITIALIZATION'' columnTimeout,
             ScrapingError (''Scraping failed: '' @ columnTimeout),
             ScrapingError columnTimeout]"
  by code_simp

lemma passPosts_empty: "scrapedPosts s = [] \<Longrightarrow> view e = [] \<Longrightarrow> passPosts e s = []"
  by (simp add: passPosts_def extractPostsFromDOM_def List.map_filter_simps)

lemma scrapedPosts_stopScraping: "scrapedPosts (stopScraping s) = scrapedPosts s"
  by (simp add: stopScraping_def sendProgressUpdate_def sendMessage_def)

lemma scrapedPosts_scrollPass_empty:
  assumes "scrapedPosts s = []" and "view e = []"
  shows "scrapedPosts (stepState (scrollPass e v s)) = []"
proof -
  obtain ok s1 where ps: "performScroll e s = (ok, s1)" by (cases "performScroll e s")
  then have p1: "scrapedPosts s1 = []"
    using assms(1)
    by (auto simp: performScroll_def Let_def scrapedPosts_stopScraping split: if_splits)
  define s2 where "s2 = waitForNewContent e s1"
  have p2: "scrapedPosts s2 = []"
    using p1 by (simp add: s2_def waitForNewContent_def Let_def scrapedPosts_stopScraping)
  show ?thesis
  proof (cases "scrapeCurrentPosts (columnShown e) (view e) s2")
    case (Threw err s3)
    then have "s3 = s2" by (rule sent_scrapeCurrentPosts_Threw)
    with Threw ps p1 p2 assms(1) show ?thesis
      by (cases ok) (auto simp: scrollPass_def Let_def s2_def [symmetric])
  next
    case (Returned s3)
    then have p3: "scrapedPosts s3 = []"
      using p2 assms(2)
      by (auto simp: scrapeCurrentPosts_def sendProgressUpdate_def sendMessage_def
          extractPostsFromDOM_def List.map_filter_simps split: if_splits)
    with Returned ps p1 p2 assms(1) show ?thesis
      by (cases ok)
         (auto simp: scrollPass_def Let_def s2_def [symmetric] scrapedPosts_stopScraping
          split: option.splits)
  qed
qed

lemma scrollPass_continue_empty:
  assumes "scrollPass e v s = Continue v' s'" and "isScrapingActive s" and "columnShown e"
    and "scrapedPosts s = []" and "view e = []"
  shows "consecutiveEmptyScrolls v = 0 \<and> consecutiveEmptyScrolls v' = 1"
proof -
  have ne: "\<not> (reachedMax s \<or> scrollFails e \<or> stopInScroll e \<or> stopInWait e)"
  proof
    assume "reachedMax s \<or> scrollFails e \<or> stopInScroll e \<or> stopInWait e"
    then have "isBreak (scrollPass e v s)" by (rule scrollPass_early)
    with assms(1) show False by simp
  qed
  have pe: "passPosts e s = []" by (rule passPosts_empty [OF assms(4,5)])
  from ne obtain s3 where "scrollPass e v s =
      (if reachedMax s3 then Break s3
       else case trackSilence (dateNow e) (length (passPosts e s) - length (scrapedPosts s)) v of
              None \<Rightarrow> Break s3
            | Some v' \<Rightarrow>
                if 2 \<le> consecutiveEmptyScrolls v' then Break s3
                else if rateLimitSeen e then Break s3
                else Continue v' (if stopInDelay e then stopScraping s3 else s3))"
    using scrollPass_scraped [OF assms(2,3), of v] by blast
  with assms(1) show ?thesis
    by (auto simp: pe assms(4) trackSilence_def split: if_splits option.splits)
qed

lemma scrollLoop_empty:
  assumes "scrapedPosts s = []" and "\<forall>e\<in>set ps. columnShown e \<and> view e = []"
    and "\<not> isScrapingActive s \<or> (ps \<noteq> [] \<and> 1 \<le> consecutiveEmptyScrolls v) \<or> 2 \<le> length ps"
  shows "\<exists>s'. scrollLoop ps v s = Some (Returned s') \<and> scrapedPosts s' = []"
  using assms
proof (induction ps arbitrary: v s)
  case Nil
  then show ?case by simp
next
  case (Cons e rest)
  have e: "columnShown e" "view e = []" using Cons.prems(2) by simp_all
  show ?case
  proof (cases "isScrapingActive s")
    case False
    with Cons.prems(1) show ?thesis by simp
  next
    case True
    have post: "scrapedPosts (stepState (scrollPass e v s)) = []"
      by (rule scrapedPosts_scrollPass_empty [OF Cons.prems(1) e(2)])
    show ?thesis
    proof (cases "scrollPass e v s")
      case (Break s')
      with True post show ?thesis by simp
    next
      case (Raise err s')
      with scrollPass_no_raise [OF e(1)] show ?thesis by blast
    next
      case (Continue v' s')
      have c: "consecutiveEmptyScrolls v = 0 \<and> consecutiveEmptyScrolls v' = 1"
        by (rule scrollPass_continue_empty [OF Continue True e(1) Cons.prems(1) e(2)])
      with Cons.prems(3) True have "rest \<noteq> []" by auto
      with c have "\<not> isScrapingActive s' \<or> (rest \<noteq> [] \<and> 1 \<le> consecutiveEmptyScrolls v')
          \<or> 2 \<le> length rest" by simp
      moreover have "scrapedPosts s' = []" using post Continue by simp
      moreover have "\<forall>e\<in>set rest. columnShown e \<and> view e = []" using Cons.prems(2) by simp
      ultimately have "\<exists>s''. scrollLoop rest v' s' = Some (Returned s'') \<and> scrapedPosts s'' = []"
        by (intro Cons.IH)
      with True Continue show ?thesis by simp
    qed
  qed
qed

lemma finalPosts_empty: "finalPosts parse now [] = []"
  by (simp add: finalPosts_def sortAndOrderPosts_def sortPosts_def arraySort_def
      assignFinalOrder_def removeDuplicatePosts_def)

lemma getScrapingStats_empty: "getScrapingStats parse now n [] = Inr (emptyStats n)"
  by (simp add: getScrapingStats_def getDateRange_def arraySort_def emptyStats_def
      uniqueInOrder_def)

lemma completeScraping_empty:
  assumes "scrapedPosts s = []"
  shows "completeScraping parse now s =
    Returned (sendMessage (ScrapingComplete [] (scrollCount s) (emptyStats (scrollCount s)))
               (s\<lparr>isScrapingActive := False\<rparr>))"
proof -
  have f: "finalPosts parse now (map snd (scrapedPosts s)) = []"
    using assms by (simp add: finalPosts_empty)
  have m: "map (\<lambda>(k, p). (k, case find (\<lambda>q. post_id q = k) [] of Some q \<Rightarrow> q | None \<Rightarrow> p))
             (scrapedPosts s) = scrapedPosts s"
    using assms by simp
  show ?thesis
    unfolding completeScraping_def Let_def f m
    by (simp add: getScrapingStats_empty)
qed

lemma endedQuietly_complete:
  assumes "scrapedPosts s = []" and "list_all (quietMessage (scrollCount s)) (sent s)"
  shows "endedQuietly (outcomeState (completeScraping parse now s))"
  using assms
  by (simp add: completeScraping_empty endedQuietly_def sendMessage_def quietMessage_def)

lemma endedQuietly_stopTimerFires:
  assumes "endedQuietly s"
  shows "endedQuietly (stopTimerFires parse now s)"
proof -
  define s1 where "s1 = s\<lparr>stopTimers := stopTimers s - 1\<rparr>"
  have a: "scrapedPosts s1 = []" "list_all (quietMessage (scrollCount s1)) (sent s1)"
    "\<not> isScrapingActive s1"
    using assms by (simp_all add: s1_def endedQuietly_def)
  have "stopTimerFires parse now s = outcomeState (completeScraping parse now s1)"
    using a(3)
    by (cases "completeScraping parse now s1") (simp_all add: stopTimerFires_def Let_def s1_def)
  then show ?thesis using endedQuietly_complete [OF a(1,2)] by simp
qed

lemma endedQuietly_fireStopTimers:
  "endedQuietly s \<Longrightarrow> endedQuietly (fireStopTimers n parse now s)"
proof (induction n arbitrary: s)
  case 0
  then show ?case by simp
next
  case (Suc n)
  show ?case
    unfolding fireStopTimers.simps
    by (rule Suc.IH, rule endedQuietly_stopTimerFires, rule Suc.prems)
qed

lemma quiet_grows:
  assumes "list_all (quietMessage n) (sent s)"
    and "\<exists>ms. sent s' = sent s @ ms \<and> list_all isProgress ms"
  shows "list_all (quietMessage n) (sent s')"
  using assms by (auto simp: list_all_iff quietMessage_def)

text \<open>
  C9. A run started on a profile page whose primary column is found in the first view
  and in every iteration, with no node ever found and at least two iterations available:
  the run returns with no post; every message it sends is the start message, a progress
  update or a completion message with an empty post list and statistics whose counts of
  posts are all zero, with no language and no date range (\<open>totalScrolls\<close> repeats the
  number of scrolls); no error message is sent, and a completion message is the last.
\<close>

theorem empty_feed_completes:
  assumes "isXProfilePage (pageAddress r)" and "firstColumnShown r" and "firstView r = []"
    and "\<forall>e\<in>set (passes r). columnShown e \<and> view e = []" and "2 \<le> length (passes r)"
  shows "\<exists>s. runScraper parse r = Some s \<and> scrapedPosts s = [] \<and>
           last (sent s) = ScrapingComplete [] (scrollCount s) (emptyStats (scrollCount s)) \<and>
           (\<forall>m\<in>set (sent s). isProgress m \<or> m = ScrapingStarted \<or>
              m = ScrapingComplete [] (scrollCount s) (emptyStats (scrollCount s)))"
proof -
  define s2 where "s2 = sendProgressUpdate ''Initializing scraper...''
    (sendMessage ScrapingStarted
      (newScraper\<lparr>maxPosts := requestedMaxPosts r, isScrapingActive := True,
          scrapedPosts := [], scrollCount := 0, noNewContentCount := 0\<rparr>))"
  define s3 where "s3 = sendProgressUpdate [] s2"
  have p2: "scrapedPosts s2 = []"
    by (simp add: s2_def sendProgressUpdate_def sendMessage_def)
  have sc: "scrapeCurrentPosts (firstColumnShown r) (firstView r) s2 = Returned s3"
  proof -
    have "s2\<lparr>scrapedPosts := []\<rparr> = s2" using p2 by (metis scraper.surjective scraper.update_convs(2))
    then show ?thesis
      using assms(2,3)
      by (simp add: scrapeCurrentPosts_def s3_def extractPostsFromDOM_def)
  qed
  have p3: "scrapedPosts s3 = []"
    using p2 by (simp add: s3_def sendProgressUpdate_def sendMessage_def)
  have q3: "list_all (quietMessage n) (sent s3)" for n
    by (simp add: s3_def s2_def sendProgressUpdate_def sendMessage_def newScraper_def
        quietMessage_def)
  let ?v0 = "\<lparr>consecutiveEmptyScrolls = 0, noNewPostsStartTime = None\<rparr>"
  obtain s4 where lp: "scrollLoop (passes r) ?v0 s3 = Some (Returned s4)"
    and p4: "scrapedPosts s4 = []"
    using scrollLoop_empty [OF p3 assms(4), of ?v0] assms(5) by blast
  have g4: "\<exists>ms. sent s4 = sent s3 @ ms \<and> list_all isProgress ms"
    using sent_scrollLoop [OF lp] by simp
  have q4: "list_all (quietMessage (scrollCount s4)) (sent s4)"
    by (rule quiet_grows [OF q3 g4])
  define s5 where "s5 = outcomeState (completeScraping parse (completionClock r) s4)"
  have c5: "completeScraping parse (completionClock r) s4 = Returned s5"
    by (simp add: s5_def completeScraping_empty [OF p4])
  have e5: "endedQuietly s5"
    unfolding s5_def by (rule endedQuietly_complete [OF p4 q4])
  have "startAutoScroll parse (completionClock r) (passes r) s3 = Some (Returned s5)"
    by (simp add: startAutoScroll_def lp c5)
  with sc assms(1) have "startScraping parse r newScraper = Some (Returned s5)"
    by (simp add: startScraping_def Let_def s2_def)
  then have "handleStart parse r newScraper = Some s5"
    by (simp add: handleStart_def)
  then have run: "runScraper parse r = Some (fireStopTimers (stopTimers s5) parse (timerClock r) s5)"
    by (simp add: runScraper_def)
  have "endedQuietly (fireStopTimers (stopTimers s5) parse (timerClock r) s5)"
    by (rule endedQuietly_fireStopTimers [OF e5])
  with run show ?thesis
    by (auto simp: endedQuietly_def list_all_iff quietMessage_def)
qed

theorem empty_feed_completes_witness:
  "isXProfilePage (pageAddress emptyFeedRun) \<and> firstColumnShown emptyFeedRun \<and>
   firstView emptyFeedRun = [] \<and>
   map columnShown (passes emptyFeedRun) = [True, True] \<and>
   map view (passes emptyFeedRun) = [[], []] \<and>
   2 \<le> length (passes emptyFeedRun) \<and>
   (\<exists>s. runScraper unrecognised emptyFeedRun = Some s \<and> scrapedPosts s = [] \<and>
        last (sent s) = ScrapingComplete [] (scrollCount s) (emptyStats (scrollCount s)) \<and>
        (\<forall>m\<in>set (sent s). isProgress m \<or> m = ScrapingStarted \<or>
           m = ScrapingComplete [] (scrollCount s) (emptyStats (scrollCount s))))"
proof -
  have h1: "isXProfilePage (pageAddress emptyFeedRun)" by code_simp
  have h2: "firstColumnShown emptyFeedRun" by (simp add: emptyFeedRun_def exampleRun_def)
  have h3: "firstView emptyFeedRun = []" by (simp add: emptyFeedRun_def exampleRun_def)
  have c: "map columnShown (passes emptyFeedRun) = [True, True]"
    by (simp add: emptyFeedRun_def exampleRun_def quietPass_def)
  have v: "map view (passes emptyFeedRun) = [[], []]"
    by (simp add: emptyFeedRun_def exampleRun_def quietPass_def)
  have h4: "\<forall>e\<in>set (passes emptyFeedRun). columnShown e \<and> view e = []"
    by (simp add: emptyFeedRun_def exampleRun_def quietPass_def)
  have h5: "2 \<le> length (passes emptyFeedRun)" by (simp add: emptyFeedRun_def exampleRun_def)
  from empty_feed_completes [OF h1 h2 h3 h4 h5, of unrecognised] h1 h2 h3 c v h5
  show ?thesis by blast
qed

end
